theory Spec2Isabelle
  imports Complex_Main "HOL-Library.Word" "HOL-Library.Sublist" "HOL-Library.Log_Nat"
begin

unbundle bit_operations_syntax

section \<open>Byte sources\<close>

type_synonym byte = "8 word"

text \<open>
  A \<^verbatim>\<open>Uint8Array\<close> is a view on an \<^verbatim>\<open>ArrayBuffer\<close>: the bytes of the buffer in front
  of the view, the elements of the array, and the bytes of the buffer behind the view.
  \<^verbatim>\<open>byteOffset\<close> is the length of the first part, \<^verbatim>\<open>length\<close> that of the second,
  and \<^verbatim>\<open>.buffer\<close> is the three parts in a row. \<^verbatim>\<open>new Uint8Array(n)\<close>, once filled,
  is an array that spans its own buffer.
\<close>

record u8array =
  before :: "byte list"
  elements :: "byte list"
  after :: "byte list"

definition buffer_of :: "u8array \<Rightarrow> byte list" where
  "buffer_of a = before a @ elements a @ after a"

definition fresh :: "byte list \<Rightarrow> u8array" where
  "fresh bs = \<lparr>before = [], elements = bs, after = []\<rparr>"

text \<open>
  \<^verbatim>\<open>type RandomSource = (len: number) => Uint8Array\<close>.
  A source is a stateful function. The state it closes over is made explicit: a call
  takes the requested length and the current state and returns the array together with
  the next state. Nothing in the type forces the returned array to have the requested
  length or to span its buffer, so the model does not force it either.
\<close>

type_synonym 's RandomSource = "nat \<Rightarrow> 's \<Rightarrow> u8array \<times> 's"

text \<open>The contract of a byte source: exactly the requested number of bytes.\<close>

definition exact_source :: "'s RandomSource \<Rightarrow> bool" where
  "exact_source src \<longleftrightarrow> (\<forall>n s. length (elements (fst (src n s))) = n)"

text \<open>
  The source of the test scenario: the bytes 0, 1, 2, ..., 255, 0, 1, ... in turn.
  Its state is the number of bytes handed out so far.
\<close>

definition cyclicSource :: "nat RandomSource" where
  "cyclicSource len s = (fresh (map (\<lambda>i. word_of_nat ((s + i) mod 256)) [0..<len]), s + len)"

text \<open>A source that only ever yields the byte 255; its state counts the calls.\<close>

definition onesSource :: "nat RandomSource" where
  "onesSource len s = (fresh (replicate len 255), Suc s)"

text \<open>
  A source that copies nothing: it keeps one buffer holding 0, 1, ..., 255 and answers
  with the sub-array of the next \<open>len\<close> bytes of it,
  \<^verbatim>\<open>buf.subarray(pos, pos + len)\<close>. Its state is the position in the buffer.
\<close>

definition cycle :: "byte list" where
  "cycle = map word_of_nat [0..<256]"

definition viewSource :: "nat RandomSource" where
  "viewSource len p =
     (\<lparr>before = take p cycle, elements = take len (drop p cycle), after = drop (p + len) cycle\<rparr>,
      (p + len) mod 256)"

section \<open>Fixed-width integer extraction\<close>

datatype error = RangeError

text \<open>
  \<^verbatim>\<open>new DataView(buffer).getUintN(0)\<close>: the first \<open>w\<close> bytes of the buffer,
  big-endian; a \<^verbatim>\<open>RangeError\<close> when the buffer is shorter than \<open>w\<close>. The extractors
  build the view on \<^verbatim>\<open>source(w).buffer\<close>, the whole buffer of the array the source
  returned, whatever the array's \<^verbatim>\<open>byteOffset\<close> and \<^verbatim>\<open>length\<close>.
\<close>

definition getUint :: "nat \<Rightarrow> byte list \<Rightarrow> error + nat" where
  "getUint w buf =
     (if length buf < w then Inl RangeError
      else Inr (foldl (\<lambda>acc b. acc * 256 + unat b) 0 (take w buf)))"

definition maxUint64 :: nat where
  "maxUint64 = 18446744073709551615"

definition uint64 :: "'s RandomSource \<Rightarrow> 's \<Rightarrow> error + nat \<times> 's" where
  "uint64 source s =
     (case source 8 s of (arr, s') \<Rightarrow>
        (case getUint 8 (buffer_of arr) of Inl e \<Rightarrow> Inl e | Inr v \<Rightarrow> Inr (v, s')))"

definition maxUInt32 :: int where
  "maxUInt32 = 4294967296"

definition uint32 :: "'s RandomSource \<Rightarrow> 's \<Rightarrow> error + nat \<times> 's" where
  "uint32 source s =
     (case source 4 s of (arr, s') \<Rightarrow>
        (case getUint 4 (buffer_of arr) of Inl e \<Rightarrow> Inl e | Inr v \<Rightarrow> Inr (v, s')))"

definition uint16 :: "'s RandomSource \<Rightarrow> 's \<Rightarrow> error + nat \<times> 's" where
  "uint16 source s =
     (case source 2 s of (arr, s') \<Rightarrow>
        (case getUint 2 (buffer_of arr) of Inl e \<Rightarrow> Inl e | Inr v \<Rightarrow> Inr (v, s')))"

definition uint8 :: "'s RandomSource \<Rightarrow> 's \<Rightarrow> error + nat \<times> 's" where
  "uint8 source s =
     (case source 1 s of (arr, s') \<Rightarrow>
        (case getUint 1 (buffer_of arr) of Inl e \<Rightarrow> Inl e | Inr v \<Rightarrow> Inr (v, s')))"

section \<open>Double arithmetic\<close>

text \<open>
  JavaScript numbers are doubles: every sum, difference, product and quotient is the exact
  result rounded to the nearest double, ties to even. \<open>round_double\<close> is that rounding, for
  results whose magnitude is in the normal range of doubles (from \<open>2 ^ - 1022\<close> to below
  \<open>2 ^ 1024\<close>). The numbers of \<open>format\<close> are small integers and their quotients, far
  inside that range; the bounds of \<open>integer\<close> are any doubles, and what is proved of it is
  stated for bounds of magnitude below \<open>2 ^ 1023\<close>, whose differences and sums stay inside
  the range as well (a difference beyond it is \<^verbatim>\<open>Infinity\<close> in the code, which a real is
  not). \<open>binade x\<close> is the exponent \<open>e\<close> with \<open>2 ^ e \<le> x < 2 ^ (e + 1)\<close>, and a double in that
  binade is a multiple of \<open>2 ^ (e - 52)\<close>.
\<close>

definition pow2 :: "int \<Rightarrow> real" where
  "pow2 e = (if 0 \<le> e then 2 ^ nat e else 1 / 2 ^ nat (- e))"

definition binade :: "real \<Rightarrow> int" where
  "binade x = (if 1 \<le> x then bitlen \<lfloor>x\<rfloor> - 1 else - bitlen (\<lceil>1 / x\<rceil> - 1))"

text \<open>
  The integer nearest to \<open>q\<close>, the even one of the two when \<open>q\<close> is half-way between them.
\<close>

definition round_even :: "real \<Rightarrow> int" where
  "round_even q =
     (let f = \<lfloor>q\<rfloor>; r = q - of_int f
      in if r < 1 / 2 \<or> (r = 1 / 2 \<and> even f) then f else f + 1)"

text \<open>The rounding of a positive real: to the nearest multiple of the unit of its binade.\<close>

definition round_pos :: "real \<Rightarrow> real" where
  "round_pos x = (let u = pow2 (binade x - 52) in of_int (round_even (x / u)) * u)"

definition round_double :: "real \<Rightarrow> real" where
  "round_double x = (if x = 0 then 0 else if x < 0 then - round_pos (- x) else round_pos x)"

definition double_add :: "real \<Rightarrow> real \<Rightarrow> real" where
  "double_add a b = round_double (a + b)"

definition double_sub :: "real \<Rightarrow> real \<Rightarrow> real" where
  "double_sub a b = round_double (a - b)"

section \<open>Bounded integer sampling\<close>

text \<open>
  Bounds and ranges are finite doubles, as reals; \<^verbatim>\<open>Math.ceil\<close> and \<^verbatim>\<open>Math.floor\<close>
  are exact and give integers, and \<^verbatim>\<open>NaN\<close> is a value of its own. In the sampling
  loop the arithmetic is exact for every integer range: the rounded quotient
  \<^verbatim>\<open>maxUInt32 / range\<close> has the floor of the exact one, the product of that floor with
  the range is at most \<open>2 ^ 32\<close> in magnitude or 0, and \<^verbatim>\<open>%\<close> is exact. The difference
  and the sums of \<open>integer\<close> are rounded.
\<close>

datatype number = Num int | NaN

definition maxIntegerIter :: nat where
  "maxIntegerIter = 100"

text \<open>
  The loop test \<^verbatim>\<open>sample < Math.floor(maxUInt32 / range) * range\<close>. For a zero range
  the right-hand side is \<^verbatim>\<open>Infinity * 0 = NaN\<close> and the comparison is false.
\<close>

definition below_limit :: "int \<Rightarrow> int \<Rightarrow> bool" where
  "below_limit sample rng \<longleftrightarrow> rng \<noteq> 0 \<and> sample < (maxUInt32 div rng) * rng"

text \<open>
  The \<^verbatim>\<open>do ... while\<close> loop of \<^verbatim>\<open>rejectionSampling\<close>, from the value \<open>i\<close> of its
  counter: draw, leave with the draw when the counter has reached the cap, otherwise
  count and repeat while the draw is not below the limit.
\<close>

function rejectionLoop :: "'s RandomSource \<Rightarrow> int \<Rightarrow> nat \<Rightarrow> 's \<Rightarrow> error + nat \<times> 's" where
  "rejectionLoop source rng i s =
     (case uint32 source s of
        Inl e \<Rightarrow> Inl e
      | Inr (sample, s') \<Rightarrow>
          if i \<ge> maxIntegerIter then Inr (sample, s')
          else if \<not> below_limit (int sample) rng then rejectionLoop source rng (Suc i) s'
          else Inr (sample, s'))"
  by pat_completeness auto
termination
  by (relation "measure (\<lambda>(source, rng, i, s). maxIntegerIter - i)") auto

text \<open>\<^verbatim>\<open>a % b\<close>: the remainder has the sign of the dividend; \<^verbatim>\<open>NaN\<close> for a zero divisor.\<close>

definition remainder :: "int \<Rightarrow> int \<Rightarrow> number" where
  "remainder a b = (if b = 0 then NaN else Num (sgn a * (\<bar>a\<bar> mod \<bar>b\<bar>)))"

definition rejectionSampling :: "'s RandomSource \<Rightarrow> 's \<Rightarrow> int \<Rightarrow> error + number \<times> 's" where
  "rejectionSampling source s rng =
     (case rejectionLoop source rng 0 s of
        Inl e \<Rightarrow> Inl e
      | Inr (sample, s') \<Rightarrow> Inr (remainder (int sample) rng, s'))"

definition integerLessThan :: "'s RandomSource \<Rightarrow> 's \<Rightarrow> real \<Rightarrow> error + number \<times> 's" where
  "integerLessThan source s rng = rejectionSampling source s \<lceil>rng\<rceil>"

text \<open>
  \<^verbatim>\<open>l + v\<close> in doubles. The rounded sum of two integers is an integer again, which
  \<open>Num\<close> holds as such.
\<close>

fun plus_number :: "int \<Rightarrow> number \<Rightarrow> number" where
  "plus_number l (Num v) = Num \<lfloor>double_add (of_int l) (of_int v)\<rfloor>"
| "plus_number l NaN = NaN"

text \<open>
  \<^verbatim>\<open>l + integerLessThan(source, h - l + 1)\<close> for \<^verbatim>\<open>min <= max\<close>, with each of
  \<^verbatim>\<open>h - l\<close>, \<^verbatim>\<open>(h - l) + 1\<close> and the final sum rounded; \<^verbatim>\<open>NaN\<close> otherwise, without
  a call of the source.
\<close>

definition integer :: "'s RandomSource \<Rightarrow> 's \<Rightarrow> real \<Rightarrow> real \<Rightarrow> error + number \<times> 's" where
  "integer source s mn mx =
     (if mn \<le> mx then
        (let l = \<lceil>mn\<rceil>; h = \<lfloor>mx\<rfloor>
         in case integerLessThan source s
                   (double_add (double_sub (of_int h) (of_int l)) 1) of
              Inl e \<Rightarrow> Inl e
            | Inr (v, s') \<Rightarrow> Inr (plus_number l v, s'))
      else Inr (NaN, s))"

text \<open>
  The sequence of 32-bit draws a caller sees from state \<open>s\<close>: the state before the
  \<open>j\<close>-th draw (counting from 0) and the value of that draw.
\<close>

definition nth_state :: "'s RandomSource \<Rightarrow> 's \<Rightarrow> nat \<Rightarrow> 's" where
  "nth_state source s j = ((\<lambda>t. snd (source 4 t)) ^^ j) s"

definition nth_sample :: "'s RandomSource \<Rightarrow> 's \<Rightarrow> nat \<Rightarrow> int" where
  "nth_sample source s j =
     int (foldl (\<lambda>acc b. acc * 256 + unat b) 0
            (take 4 (buffer_of (fst (source 4 (nth_state source s j))))))"

section \<open>Alphabet formatting\<close>

text \<open>
  Strings are lists of characters of any type \<open>'c\<close> (UTF-16 code units in the source):
  \<^verbatim>\<open>alphabet.length\<close> is \<open>length\<close>, \<^verbatim>\<open>alphabet[k]\<close> is the \<open>k\<close>-th element or
  \<^verbatim>\<open>undefined\<close>.
\<close>

subsection \<open>The mask\<close>

text \<open>\<^verbatim>\<open>Math.clz32\<close>: the number of leading zero bits of a 32-bit value.\<close>

fun clz_from :: "nat \<Rightarrow> 32 word \<Rightarrow> nat" where
  "clz_from 0 w = 0"
| "clz_from (Suc n) w = (if bit w n then 0 else Suc (clz_from n w))"

definition clz32 :: "32 word \<Rightarrow> nat" where
  "clz32 w = clz_from 32 w"

text \<open>
  \<^verbatim>\<open>(2 << 31 - Math.clz32((alphabet.length - 1) | 1)) - 1\<close>, computed on 32-bit values
  as \<^verbatim>\<open>|\<close> and \<^verbatim>\<open><<\<close> do. The subtraction binds tighter than the shift.
\<close>

definition alphabet_mask :: "nat \<Rightarrow> 32 word" where
  "alphabet_mask alen = push_bit (31 - clz32 (word_of_int (int alen - 1) OR 1)) 2 - 1"

subsection \<open>The batch size\<close>

text \<open>
  \<^verbatim>\<open>Math.ceil(1.6 * mask * size / alphabet.length)\<close> is double arithmetic, and its
  roundings decide how many bytes a batch has: each product and the quotient are rounded
  in turn.
\<close>

text \<open>The double nearest to 1.6.\<close>

definition double_1_6 :: real where
  "double_1_6 = 3602879701896397 / 2251799813685248"

definition format_step :: "nat \<Rightarrow> nat \<Rightarrow> nat \<Rightarrow> nat" where
  "format_step msk sz alen =
     nat \<lceil>round_double
            (round_double (round_double (double_1_6 * real msk) * real sz) / real alen)\<rceil>"

subsection \<open>The loops\<close>

text \<open>
  \<^verbatim>\<open>bytes[i]\<close> as an operand of \<^verbatim>\<open>&\<close>: the byte, or 0 for \<^verbatim>\<open>undefined\<close> past the end
  of the array. \<^verbatim>\<open>alphabet[k] || ""\<close>: the character, or nothing past the end.
\<close>

definition byte_at :: "byte list \<Rightarrow> nat \<Rightarrow> 32 word" where
  "byte_at bytes i = (if i < length bytes then ucast (bytes ! i) else 0)"

definition char_at :: "'c list \<Rightarrow> nat \<Rightarrow> 'c list" where
  "char_at alphabet k = (if k < length alphabet then [alphabet ! k] else [])"

datatype 'a batch = Return 'a | Exhausted 'a

text \<open>
  The inner loop \<^verbatim>\<open>while (i--)\<close>, from the value \<open>i\<close> of its counter: it reads
  \<^verbatim>\<open>bytes[i - 1]\<close> down to \<^verbatim>\<open>bytes[0]\<close> and returns as soon as the string has
  \<open>sz\<close> characters.
\<close>

fun format_batch :: "'c list \<Rightarrow> 32 word \<Rightarrow> nat \<Rightarrow> byte list \<Rightarrow> nat \<Rightarrow> 'c list \<Rightarrow> 'c list batch" where
  "format_batch alphabet msk sz bytes 0 idstr = Exhausted idstr"
| "format_batch alphabet msk sz bytes (Suc i) idstr =
     (let idstr' = idstr @ char_at alphabet (unat (byte_at bytes i AND msk))
      in if length idstr' = sz then Return idstr'
         else format_batch alphabet msk sz bytes i idstr')"

text \<open>
  The outer loop \<^verbatim>\<open>while (true)\<close>: one batch of \<open>step\<close> bytes per round, with no bound
  on the rounds. \<open>None\<close> is a call that never returns.
\<close>

partial_function (option) format_loop ::
  "'s RandomSource \<Rightarrow> 'c list \<Rightarrow> 32 word \<Rightarrow> nat \<Rightarrow> nat \<Rightarrow> 'c list \<Rightarrow> 's \<Rightarrow> ('c list \<times> 's) option" where
  "format_loop random alphabet msk step sz idstr s =
     (case random step s of (bytes, s') \<Rightarrow>
        (case format_batch alphabet msk sz (elements bytes) step idstr of
           Return r \<Rightarrow> Some (r, s')
         | Exhausted idstr' \<Rightarrow> format_loop random alphabet msk step sz idstr' s'))"

text \<open>
  With an empty alphabet the mask is \<open>-1\<close> and \<^verbatim>\<open>step\<close> is a division by zero:
  \<^verbatim>\<open>-Infinity\<close> for a positive size, \<^verbatim>\<open>NaN\<close> for size 0. That is no length a
  source can be asked for in this model, and what the call \<^verbatim>\<open>random(step)\<close> does is
  up to the source: one that allocates \<^verbatim>\<open>new Uint8Array(step)\<close>, as the sources of the
  repository do, raises a \<^verbatim>\<open>RangeError\<close> at \<^verbatim>\<open>-Infinity\<close>; after a source that
  answers, the inner loop counts down from \<^verbatim>\<open>-Infinity\<close> without end, or is skipped at
  \<^verbatim>\<open>NaN\<close> and the outer loop repeats without end, since \<^verbatim>\<open>alphabet[k]\<close> is always
  \<^verbatim>\<open>undefined\<close> and no character is ever appended. In every case no string is
  returned; for the empty alphabet, and for it only, \<open>None\<close> stands for that, the exception
  of an allocating source included. Otherwise the mask is a non-negative number (for
  alphabets of at most \<open>2 ^ 30\<close> characters, and no string is longer) and \<open>step\<close> a natural
  number.
\<close>

definition format :: "'s RandomSource \<Rightarrow> 's \<Rightarrow> 'c list \<Rightarrow> nat \<Rightarrow> ('c list \<times> 's) option" where
  "format random s alphabet sz =
     (if alphabet = [] then None
      else let msk = alphabet_mask (length alphabet);
               step = format_step (unat msk) sz (length alphabet)
           in format_loop random alphabet msk step sz [] s)"

text \<open>
  A byte is accepted when its masked value is an index of the alphabet. The loop of
  \<open>format\<close> has no bound, so whether it returns depends on how many accepted bytes the
  source yields: \<open>accepted_count\<close> is the number of accepted positions below \<open>n\<close> of one
  batch, \<open>accepted_total\<close> their number in the first \<open>k\<close> batches of \<open>step\<close> bytes that the
  source hands out from state \<open>s\<close>, and \<open>accepted_by_format\<close> the same for the mask and the
  batch size that \<open>format\<close> computes.
\<close>

definition accepted :: "'c list \<Rightarrow> 32 word \<Rightarrow> byte list \<Rightarrow> nat \<Rightarrow> bool" where
  "accepted alphabet msk bytes i \<longleftrightarrow> unat (byte_at bytes i AND msk) < length alphabet"

definition accepted_count :: "'c list \<Rightarrow> 32 word \<Rightarrow> byte list \<Rightarrow> nat \<Rightarrow> nat" where
  "accepted_count alphabet msk bytes n = length (filter (accepted alphabet msk bytes) [0..<n])"

fun accepted_total ::
  "'s RandomSource \<Rightarrow> 'c list \<Rightarrow> 32 word \<Rightarrow> nat \<Rightarrow> 's \<Rightarrow> nat \<Rightarrow> nat" where
  "accepted_total random alphabet msk step s 0 = 0"
| "accepted_total random alphabet msk step s (Suc k) =
     (case random step s of (bytes, s') \<Rightarrow>
        accepted_count alphabet msk (elements bytes) step
          + accepted_total random alphabet msk step s' k)"

definition accepted_by_format :: "'s RandomSource \<Rightarrow> 's \<Rightarrow> 'c list \<Rightarrow> nat \<Rightarrow> nat \<Rightarrow> nat" where
  "accepted_by_format random s alphabet sz k =
     (let msk = alphabet_mask (length alphabet);
          step = format_step (unat msk) sz (length alphabet)
      in accepted_total random alphabet msk step s k)"

section \<open>Patterns\<close>

text \<open>\<^verbatim>\<open>patterns: string | readonly string[]\<close>.\<close>

datatype 'c patterns = Single "'c list" | Multi "'c list list"

text \<open>\<^verbatim>\<open>positions.map(() => uint32(random))\<close>: one draw per position, in order.\<close>

fun uint32s :: "'s RandomSource \<Rightarrow> nat \<Rightarrow> 's \<Rightarrow> error + nat list \<times> 's" where
  "uint32s random 0 s = Inr ([], s)"
| "uint32s random (Suc n) s =
     (case uint32 random s of
        Inl e \<Rightarrow> Inl e
      | Inr (v, s') \<Rightarrow>
          (case uint32s random n s' of
             Inl e \<Rightarrow> Inl e
           | Inr (vs, s'') \<Rightarrow> Inr (v # vs, s'')))"

text \<open>\<^verbatim>\<open>for (const subpattern of patterns) buf += format(random, subpattern, 1)\<close>.\<close>

fun format_each :: "'s RandomSource \<Rightarrow> 'c list list \<Rightarrow> 'c list \<Rightarrow> 's \<Rightarrow> ('c list \<times> 's) option" where
  "format_each random [] buf s = Some (buf, s)"
| "format_each random (subpattern # rest) buf s =
     (case format random s subpattern 1 of
        None \<Rightarrow> None
      | Some (c, s') \<Rightarrow> format_each random rest (buf @ c) s')"

text \<open>
  \<^verbatim>\<open>positions.sort((a, b) => randoms[a] - randoms[b])\<close> is a stable sort of the
  positions by their draws, as \<open>sort_key\<close> is. The result of \<open>pattern\<close> is \<open>None\<close> when
  the call never returns, an error when a draw raises, and the string with the next
  state of the source otherwise.
\<close>

fun pattern :: "'s RandomSource \<Rightarrow> 's \<Rightarrow> nat \<Rightarrow> 'c patterns \<Rightarrow> (error + 'c list \<times> 's) option" where
  "pattern random s len (Single alphabet) = map_option Inr (format random s alphabet len)"
| "pattern random s len (Multi ps) =
     (if len < length ps then map_option Inr (format random s (concat ps) len)
      else
        (case format_each random ps [] s of
           None \<Rightarrow> None
         | Some (buf, s1) \<Rightarrow>
             (case format random s1 (concat ps) (len - length ps) of
                None \<Rightarrow> None
              | Some (rest, s2) \<Rightarrow>
                  (let chars = buf @ rest
                   in case uint32s random (length chars) s2 of
                        Inl e \<Rightarrow> Some (Inl e)
                      | Inr (randoms, s3) \<Rightarrow>
                          (let sortedPositions = sort_key (\<lambda>a. randoms ! a) [0..<length chars]
                           in Some (Inr (map (\<lambda>i. chars ! i) sortedPositions, s3)))))))"

section \<open>Unique patterns\<close>

text \<open>
  A \<^verbatim>\<open>Set<string>\<close> is a list without repetitions in insertion order; \<^verbatim>\<open>map.size\<close>
  is its length and \<^verbatim>\<open>[...map.keys()]\<close> the list itself.
\<close>

definition set_add :: "'a \<Rightarrow> 'a list \<Rightarrow> 'a list" where
  "set_add p m = (if p \<in> set m then m else m @ [p])"

text \<open>
  The loop taken when \<^verbatim>\<open>existingPatterns\<close> is given: a pattern \<open>p\<close> is drawn and looked up
  in the existing ones; when it is not among them, \<^verbatim>\<open>map.add(pattern(random, len, patterns))\<close>
  draws again and adds the new draw.
\<close>

partial_function (option) unique_excluding ::
  "'s RandomSource \<Rightarrow> nat \<Rightarrow> nat \<Rightarrow> 'c patterns \<Rightarrow> 'c list list \<Rightarrow> 'c list list \<Rightarrow> 's
     \<Rightarrow> (error + 'c list list \<times> 's) option" where
  "unique_excluding random cnt len patterns existingMap m s =
     (if length m < cnt then
        (case pattern random s len patterns of
           None \<Rightarrow> None
         | Some (Inl e) \<Rightarrow> Some (Inl e)
         | Some (Inr (p, s1)) \<Rightarrow>
             if p \<in> set existingMap then
               unique_excluding random cnt len patterns existingMap m s1
             else
               (case pattern random s1 len patterns of
                  None \<Rightarrow> None
                | Some (Inl e) \<Rightarrow> Some (Inl e)
                | Some (Inr (p', s2)) \<Rightarrow>
                    unique_excluding random cnt len patterns existingMap (set_add p' m) s2))
      else Some (Inr (m, s)))"

text \<open>The loop taken without \<^verbatim>\<open>existingPatterns\<close>.\<close>

partial_function (option) unique_plain ::
  "'s RandomSource \<Rightarrow> nat \<Rightarrow> nat \<Rightarrow> 'c patterns \<Rightarrow> 'c list list \<Rightarrow> 's
     \<Rightarrow> (error + 'c list list \<times> 's) option" where
  "unique_plain random cnt len patterns m s =
     (if length m < cnt then
        (case pattern random s len patterns of
           None \<Rightarrow> None
         | Some (Inl e) \<Rightarrow> Some (Inl e)
         | Some (Inr (p, s1)) \<Rightarrow> unique_plain random cnt len patterns (set_add p m) s1)
      else Some (Inr (m, s)))"

text \<open>
  \<^verbatim>\<open>if (existingPatterns)\<close> holds for every array, the empty one included; only an
  absent argument takes the second loop.
\<close>

definition uniquePatterns ::
  "'s RandomSource \<Rightarrow> 's \<Rightarrow> nat \<Rightarrow> nat \<Rightarrow> 'c patterns \<Rightarrow> 'c list list option
     \<Rightarrow> (error + 'c list list \<times> 's) option" where
  "uniquePatterns random s cnt len patterns existingPatterns =
     (case existingPatterns of
        Some ps \<Rightarrow> unique_excluding random cnt len patterns ps [] s
      | None \<Rightarrow> unique_plain random cnt len patterns [] s)"

section \<open>The batching adapter\<close>

text \<open>
  \<^verbatim>\<open>batchedRandomSource(source, batchSize)\<close> returns a closure over \<^verbatim>\<open>buffer\<close> and
  \<^verbatim>\<open>offset\<close>. The state of the closure is a record of the two, together with the state
  of the wrapped source; \<^verbatim>\<open>buffer\<close> is \<^verbatim>\<open>undefined\<close> until the first call.
\<close>

record 's batched =
  buffer :: "u8array option"
  offset :: nat
  base :: 's

definition batched_init :: "'s \<Rightarrow> 's batched" where
  "batched_init s = \<lparr>buffer = None, offset = 0, base = s\<rparr>"

text \<open>
  \<^verbatim>\<open>result.set(buffer.subarray(offset, offset + size), pos)\<close>: the sub-array of the
  elements is cut off at the end of the array, and its bytes overwrite the result from
  \<open>pos\<close> on. The result is a \<^verbatim>\<open>new Uint8Array(len)\<close>, an array that spans its own
  buffer; the model returns its bytes.
\<close>

definition subarray :: "byte list \<Rightarrow> nat \<Rightarrow> nat \<Rightarrow> byte list" where
  "subarray buf from to = take (to - from) (drop from buf)"

definition set_at :: "byte list \<Rightarrow> byte list \<Rightarrow> nat \<Rightarrow> byte list" where
  "set_at result chunk pos = take pos result @ chunk @ drop (pos + length chunk) result"

text \<open>
  The loop \<^verbatim>\<open>while (pos < len)\<close>. The offset never exceeds the batch size, so
  \<^verbatim>\<open>batchSize - offset\<close> is a natural number. With a batch size of 0 the loop does not
  end; \<open>None\<close> is a call that never returns.
\<close>

partial_function (option) batched_loop ::
  "'s RandomSource \<Rightarrow> nat \<Rightarrow> nat \<Rightarrow> byte list \<Rightarrow> nat \<Rightarrow> u8array \<Rightarrow> nat \<Rightarrow> 's
     \<Rightarrow> (byte list \<times> 's batched) option" where
  "batched_loop source batchSize len result pos buf off s =
     (if pos < len then
        (let sz = min (len - pos) (batchSize - off);
             result' = set_at result (subarray (elements buf) off (off + sz)) pos;
             pos' = pos + sz;
             off' = off + sz
         in if off' = batchSize then
              (case source batchSize s of (buf', s') \<Rightarrow>
                 batched_loop source batchSize len result' pos' buf' 0 s')
            else batched_loop source batchSize len result' pos' buf off' s)
      else Some (result, \<lparr>buffer = Some buf, offset = off, base = s\<rparr>))"

definition batchedRandomSource ::
  "'s RandomSource \<Rightarrow> nat \<Rightarrow> nat \<Rightarrow> 's batched \<Rightarrow> (byte list \<times> 's batched) option" where
  "batchedRandomSource source batchSize len st =
     (case (case buffer st of
              None \<Rightarrow> source batchSize (base st)
            | Some buf \<Rightarrow> (buf, base st)) of
        (buf, s) \<Rightarrow> batched_loop source batchSize len (replicate len 0) 0 buf (offset st) s)"

text \<open>A sequence of calls of the adapter, one per requested length.\<close>

fun batched_calls ::
  "'s RandomSource \<Rightarrow> nat \<Rightarrow> nat list \<Rightarrow> 's batched \<Rightarrow> (byte list list \<times> 's batched) option" where
  "batched_calls source batchSize [] st = Some ([], st)"
| "batched_calls source batchSize (len # lens) st =
     (case batchedRandomSource source batchSize len st of
        None \<Rightarrow> None
      | Some (out, st') \<Rightarrow>
          (case batched_calls source batchSize lens st' of
             None \<Rightarrow> None
           | Some (outs, st'') \<Rightarrow> Some (out # outs, st'')))"

text \<open>
  What the wrapped source hands out when it is asked for one batch after another from
  state \<open>s\<close>: its state before the \<open>j\<close>-th batch, and the first \<open>k\<close> batches in a row.
\<close>

definition batch_state :: "'s RandomSource \<Rightarrow> nat \<Rightarrow> 's \<Rightarrow> nat \<Rightarrow> 's" where
  "batch_state source batchSize s j = ((\<lambda>t. snd (source batchSize t)) ^^ j) s"

definition drawn :: "'s RandomSource \<Rightarrow> nat \<Rightarrow> 's \<Rightarrow> nat \<Rightarrow> byte list" where
  "drawn source batchSize s k =
     concat (map (\<lambda>j. elements (fst (source batchSize (batch_state source batchSize s j))))
               [0..<k])"

text \<open>
  The invariant of the adapter, for the proofs: the bytes \<open>E\<close> handed out so far, followed
  by the unread rest of the buffer, are the first \<open>k\<close> batches of the wrapped source.
\<close>

definition batched_inv :: "'s RandomSource \<Rightarrow> nat \<Rightarrow> 's \<Rightarrow> byte list \<Rightarrow> byte list \<Rightarrow> nat \<Rightarrow> 's \<Rightarrow> nat \<Rightarrow> bool" where
  "batched_inv source batchSize s0 E buf off s k \<longleftrightarrow>
     length buf = batchSize \<and> off < batchSize \<and> s = batch_state source batchSize s0 k
     \<and> E @ drop off buf = drawn source batchSize s0 k"

definition adapter_inv :: "'s RandomSource \<Rightarrow> nat \<Rightarrow> 's \<Rightarrow> byte list \<Rightarrow> 's batched \<Rightarrow> bool" where
  "adapter_inv source batchSize s0 E st \<longleftrightarrow>
     (case buffer st of
        None \<Rightarrow> offset st = 0 \<and> base st = s0 \<and> E = []
      | Some buf \<Rightarrow>
          (\<exists>k. batched_inv source batchSize s0 E (elements buf) (offset st) (base st) k))"

section \<open>Sources that yield the same bytes\<close>

text \<open>
  Two sources, possibly with states of different types, yield the same bytes from related
  states when every request is answered with the same array (the same elements, on the
  same bytes of buffer around them, which the extractors read) and leads to related
  states again. A source is related to itself by equality of states.
\<close>

definition same_bytes :: "('s \<Rightarrow> 't \<Rightarrow> bool) \<Rightarrow> 's RandomSource \<Rightarrow> 't RandomSource \<Rightarrow> bool" where
  "same_bytes R src1 src2 \<longleftrightarrow>
     (\<forall>n s t. R s t \<longrightarrow> fst (src1 n s) = fst (src2 n t) \<and> R (snd (src1 n s)) (snd (src2 n t)))"

text \<open>\<^verbatim>\<open>bytes(source, len)\<close> hands the request on.\<close>

definition bytesOf :: "'s RandomSource \<Rightarrow> 's \<Rightarrow> nat \<Rightarrow> u8array \<times> 's" where
  "bytesOf source s len = source len s"

text \<open>
  Two results are the same when they are the same error, or the same value with related
  states of the sources; two outcomes, when neither call returns or both return the same
  result.
\<close>

abbreviation same_result :: "('s \<Rightarrow> 't \<Rightarrow> bool) \<Rightarrow> error + 'a \<times> 's \<Rightarrow> error + 'a \<times> 't \<Rightarrow> bool" where
  "same_result R \<equiv> rel_sum (=) (rel_prod (=) R)"

abbreviation same_outcome ::
  "('s \<Rightarrow> 't \<Rightarrow> bool) \<Rightarrow> (error + 'a \<times> 's) option \<Rightarrow> (error + 'a \<times> 't) option \<Rightarrow> bool" where
  "same_outcome R \<equiv> rel_option (rel_sum (=) (rel_prod (=) R))"

text \<open>
  A second implementation of the cyclic source, whose state is the next byte rather than
  the number of bytes handed out.
\<close>

definition wrappingSource :: "nat RandomSource" where
  "wrappingSource len s =
     (fresh (map (\<lambda>i. word_of_nat ((s + i) mod 256)) [0..<len]), (s + len) mod 256)"

section \<open>Properties of the extractors\<close>

lemma unat_byte_less: "unat (b :: byte) < 256"
  using unsigned_less [of b, where ?'a = nat] by simp

lemma elements_fresh [simp]: "elements (fresh bs) = bs"
  by (simp add: fresh_def)

lemma buffer_of_fresh [simp]: "buffer_of (fresh bs) = bs"
  by (simp add: fresh_def buffer_of_def)

lemma length_buffer_of: "length (elements a) \<le> length (buffer_of a)"
  by (simp add: buffer_of_def)

lemma exact_sourceD:
  "exact_source src \<Longrightarrow> src n s = (arr, s') \<Longrightarrow> length (elements arr) = n"
  unfolding exact_source_def by (metis fst_conv)

lemma exact_cyclicSource: "exact_source cyclicSource"
  by (simp add: exact_source_def cyclicSource_def)

lemma exact_onesSource: "exact_source onesSource"
  by (simp add: exact_source_def onesSource_def)

lemma replicate_num: "replicate (numeral k) x = x # replicate (pred_numeral k) x"
  by (simp add: numeral_eq_Suc)

lemma upt_num: "[i..<numeral n] = (if i < numeral n then i # [Suc i..<numeral n] else [])"
  by (rule upt_rec)

text \<open>
  When the source answers with an array that spans its buffer, each extractor returns the
  big-endian value of the \<open>w\<close> bytes it was handed, as an exact integer below
  \<open>2 ^ (8 * w)\<close>; the 8-byte value is at most \<open>maxUint64\<close>. On the cyclic source, which
  answers with such arrays, the first \<open>uint8\<close> is 0 and the next one is 1.
\<close>

lemma uint_big_endian_spanning:
  "(\<forall>b0 s'. source 1 s = (fresh [b0], s') \<longrightarrow>
      uint8 source s = Inr (unat b0, s') \<and> unat b0 < 2 ^ 8)
   \<and> (\<forall>b0 b1 s'. source 2 s = (fresh [b0, b1], s') \<longrightarrow>
      uint16 source s = Inr (unat b0 * 2 ^ 8 + unat b1, s')
      \<and> unat b0 * 2 ^ 8 + unat b1 < (2 :: nat) ^ 16)
   \<and> (\<forall>b0 b1 b2 b3 s'. source 4 s = (fresh [b0, b1, b2, b3], s') \<longrightarrow>
      uint32 source s
        = Inr (unat b0 * 2 ^ 24 + unat b1 * 2 ^ 16 + unat b2 * 2 ^ 8 + unat b3, s')
      \<and> unat b0 * 2 ^ 24 + unat b1 * 2 ^ 16 + unat b2 * 2 ^ 8 + unat b3 < (2 :: nat) ^ 32)
   \<and> (\<forall>b0 b1 b2 b3 b4 b5 b6 b7 s'. source 8 s = (fresh [b0, b1, b2, b3, b4, b5, b6, b7], s') \<longrightarrow>
      uint64 source s
        = Inr (unat b0 * 2 ^ 56 + unat b1 * 2 ^ 48 + unat b2 * 2 ^ 40 + unat b3 * 2 ^ 32
               + unat b4 * 2 ^ 24 + unat b5 * 2 ^ 16 + unat b6 * 2 ^ 8 + unat b7, s')
      \<and> unat b0 * 2 ^ 56 + unat b1 * 2 ^ 48 + unat b2 * 2 ^ 40 + unat b3 * 2 ^ 32
               + unat b4 * 2 ^ 24 + unat b5 * 2 ^ 16 + unat b6 * 2 ^ 8 + unat b7 \<le> maxUint64)
   \<and> uint8 cyclicSource 0 = Inr (0, 1)
   \<and> uint8 cyclicSource 1 = Inr (1, 2)"
proof -
  have b: "\<And>x :: byte. unat x < 256" by (rule unat_byte_less)
  have u8: "source 1 s = (fresh [b0], s') \<longrightarrow>
      uint8 source s = Inr (unat b0, s') \<and> unat b0 < 2 ^ 8" for b0 s'
    using b [of b0] by (simp add: uint8_def getUint_def)
  have u16: "source 2 s = (fresh [b0, b1], s') \<longrightarrow>
      uint16 source s = Inr (unat b0 * 2 ^ 8 + unat b1, s')
      \<and> unat b0 * 2 ^ 8 + unat b1 < (2 :: nat) ^ 16" for b0 b1 s'
    using b [of b0] b [of b1] by (simp add: uint16_def getUint_def)
  have u32: "source 4 s = (fresh [b0, b1, b2, b3], s') \<longrightarrow>
      uint32 source s
        = Inr (unat b0 * 2 ^ 24 + unat b1 * 2 ^ 16 + unat b2 * 2 ^ 8 + unat b3, s')
      \<and> unat b0 * 2 ^ 24 + unat b1 * 2 ^ 16 + unat b2 * 2 ^ 8 + unat b3 < (2 :: nat) ^ 32"
    for b0 b1 b2 b3 s'
    using b [of b0] b [of b1] b [of b2] b [of b3] by (simp add: uint32_def getUint_def)
  have u64: "source 8 s = (fresh [b0, b1, b2, b3, b4, b5, b6, b7], s') \<longrightarrow>
      uint64 source s
        = Inr (unat b0 * 2 ^ 56 + unat b1 * 2 ^ 48 + unat b2 * 2 ^ 40 + unat b3 * 2 ^ 32
               + unat b4 * 2 ^ 24 + unat b5 * 2 ^ 16 + unat b6 * 2 ^ 8 + unat b7, s')
      \<and> unat b0 * 2 ^ 56 + unat b1 * 2 ^ 48 + unat b2 * 2 ^ 40 + unat b3 * 2 ^ 32
               + unat b4 * 2 ^ 24 + unat b5 * 2 ^ 16 + unat b6 * 2 ^ 8 + unat b7 \<le> maxUint64"
    for b0 b1 b2 b3 b4 b5 b6 b7 s'
    using b [of b0] b [of b1] b [of b2] b [of b3] b [of b4] b [of b5] b [of b6] b [of b7]
    by (simp add: uint64_def getUint_def maxUint64_def)
  have c0: "uint8 cyclicSource 0 = Inr (0, 1)"
    by (simp add: uint8_def getUint_def cyclicSource_def)
  have c1: "uint8 cyclicSource 1 = Inr (1, 2)"
    by (simp add: uint8_def getUint_def cyclicSource_def)
  from u8 u16 u32 u64 c0 c1 show ?thesis by blast
qed

lemma cycle_append: "take p cycle @ take len (drop p cycle) @ drop (p + len) cycle = cycle"
  by (metis append_take_drop_id drop_drop add.commute append.assoc)

lemma buffer_of_viewSource: "buffer_of (fst (viewSource len p)) = cycle"
  by (simp add: viewSource_def buffer_of_def cycle_append)

lemma length_cycle: "length cycle = 256"
  by (simp add: cycle_def)

lemma take_1_cycle: "take (Suc 0) cycle = [0]"
  by (simp add: cycle_def take_map)

lemma elements_viewSource_1: "elements (fst (viewSource 1 1)) = [1]"
proof -
  have "take (Suc 0) (drop (Suc 0) (map word_of_nat [0..<256] :: byte list)) = [1]"
    by (simp add: take_map drop_map)
  then show ?thesis by (simp add: viewSource_def cycle_def)
qed

text \<open>
  C7 on the code. The extractors decode the start of \<^verbatim>\<open>source(w).buffer\<close>, not the
  elements of the array the source returned. A source that hands out views of one shared
  buffer holding 0, 1, ..., 255 yields the byte 1 on the second call for one byte, and
  \<open>uint8\<close> returns 0 again, the first byte of the buffer.
\<close>

theorem uint8_decodes_buffer_start:
  "uint8 viewSource 0 = Inr (0, 1)
   \<and> elements (fst (viewSource 1 1)) = [1]
   \<and> uint8 viewSource 1 = Inr (0, 2)"
proof -
  have "uint8 viewSource p = Inr (0, (p + 1) mod 256)" for p
  proof -
    obtain arr s' where v: "viewSource 1 p = (arr, s')" by (cases "viewSource 1 p")
    with buffer_of_viewSource [of 1 p] have "buffer_of arr = cycle" by simp
    moreover from v have "s' = (p + 1) mod 256" by (simp add: viewSource_def)
    moreover have "getUint 1 cycle = Inr 0" by (simp add: getUint_def take_1_cycle length_cycle)
    ultimately show ?thesis using v by (simp add: uint8_def)
  qed
  from this [of 0] this [of 1] elements_viewSource_1 show ?thesis by simp
qed

section \<open>Properties of double rounding\<close>

lemma pow2_powi: "pow2 e = 2 powi e"
  by (simp add: pow2_def power_int_def inverse_eq_divide power_one_over)

lemma pow2_pos: "0 < pow2 e"
  by (simp add: pow2_powi)

lemma pow2_mono: "a \<le> b \<Longrightarrow> pow2 a \<le> pow2 b"
  unfolding pow2_powi by (rule power_int_increasing) simp_all

lemma pow2_less_imp: "pow2 a < pow2 b \<Longrightarrow> a < b"
  using pow2_mono [of b a] by (cases "a < b") simp_all

lemma pow2_add: "pow2 (a + b) = pow2 a * pow2 b"
  unfolding pow2_powi by (simp add: power_int_add)

lemma pow2_nat: "pow2 (int n) = 2 ^ n"
  by (simp add: pow2_def)

lemma pow2_binade_le:
  assumes "0 < x"
  shows "pow2 (binade x) \<le> x"
proof (cases "1 \<le> x")
  case True
  then have fl: "0 < \<lfloor>x\<rfloor>" by simp
  from bitlen_bounds [OF fl] have "2 ^ nat (bitlen \<lfloor>x\<rfloor> - 1) \<le> \<lfloor>x\<rfloor>" by simp
  then have "real_of_int (2 ^ nat (bitlen \<lfloor>x\<rfloor> - 1)) \<le> real_of_int \<lfloor>x\<rfloor>"
    by (simp only: of_int_le_iff)
  also have "\<dots> \<le> x" by simp
  finally have "2 ^ nat (bitlen \<lfloor>x\<rfloor> - 1) \<le> x" by simp
  moreover from fl have "1 \<le> bitlen \<lfloor>x\<rfloor>"
    using bitlen_eq_zero_iff [of "\<lfloor>x\<rfloor>"] bitlen_nonneg [of "\<lfloor>x\<rfloor>"] by linarith
  ultimately show ?thesis using True by (simp add: binade_def pow2_def)
next
  case False
  with assms have x1: "x < 1" by simp
  let ?c = "\<lceil>1 / x\<rceil> - 1"
  from x1 assms have "1 < 1 / x" by simp
  then have c: "0 < ?c" by linarith
  from bitlen_bounds [OF c] have "?c < 2 ^ nat (bitlen ?c)" by simp
  then have "\<lceil>1 / x\<rceil> \<le> 2 ^ nat (bitlen ?c)" by simp
  then have "real_of_int \<lceil>1 / x\<rceil> \<le> real_of_int (2 ^ nat (bitlen ?c))"
    by (simp only: of_int_le_iff)
  then have "real_of_int \<lceil>1 / x\<rceil> \<le> 2 ^ nat (bitlen ?c)"
    by (simp only: of_int_power of_int_numeral)
  moreover have "1 / x \<le> real_of_int \<lceil>1 / x\<rceil>" by (rule le_of_int_ceiling)
  ultimately have "1 / x \<le> 2 ^ nat (bitlen ?c)" by (rule order_trans [rotated])
  with assms have "1 / 2 ^ nat (bitlen ?c) \<le> x"
    by (simp add: field_simps)
  moreover from c have "1 \<le> bitlen ?c"
    using bitlen_eq_zero_iff [of ?c] bitlen_nonneg [of ?c] by linarith
  ultimately show ?thesis using False by (simp add: binade_def pow2_def)
qed

lemma binade_lt_pow2:
  assumes "0 < x"
  shows "x < pow2 (binade x + 1)"
proof (cases "1 \<le> x")
  case True
  then have fl: "0 < \<lfloor>x\<rfloor>" by simp
  from bitlen_bounds [OF fl] have "\<lfloor>x\<rfloor> < 2 ^ nat (bitlen \<lfloor>x\<rfloor>)" by simp
  then have "\<lfloor>x\<rfloor> + 1 \<le> 2 ^ nat (bitlen \<lfloor>x\<rfloor>)" by simp
  then have "real_of_int (\<lfloor>x\<rfloor> + 1) \<le> real_of_int (2 ^ nat (bitlen \<lfloor>x\<rfloor>))"
    by (simp only: of_int_le_iff)
  then have "real_of_int \<lfloor>x\<rfloor> + 1 \<le> 2 ^ nat (bitlen \<lfloor>x\<rfloor>)" by simp
  moreover have "x < real_of_int \<lfloor>x\<rfloor> + 1" by linarith
  ultimately have "x < 2 ^ nat (bitlen \<lfloor>x\<rfloor>)" by linarith
  moreover have "0 \<le> bitlen \<lfloor>x\<rfloor>" by (rule bitlen_nonneg)
  ultimately show ?thesis using True by (simp add: binade_def pow2_def)
next
  case False
  with assms have x1: "x < 1" by simp
  let ?c = "\<lceil>1 / x\<rceil> - 1"
  from assms x1 have "1 < 1 / x" by simp
  then have c0: "0 < ?c" by linarith
  from bitlen_bounds [OF c0] have "2 ^ nat (bitlen ?c - 1) \<le> ?c" by simp
  then have "real_of_int (2 ^ nat (bitlen ?c - 1)) \<le> real_of_int ?c" by (simp only: of_int_le_iff)
  moreover have "real_of_int ?c < 1 / x" by linarith
  ultimately have "2 ^ nat (bitlen ?c - 1) < 1 / x" by simp
  then have "x * 2 ^ nat (bitlen ?c - 1) < 1" using assms by (simp add: field_simps)
  then have "x < 1 / 2 ^ nat (bitlen ?c - 1)" by (simp add: field_simps)
  moreover from c0 have "0 < bitlen ?c"
    using bitlen_eq_zero_iff [of ?c] bitlen_nonneg [of ?c] by linarith
  then have "binade x + 1 \<le> 0" "nat (- (binade x + 1)) = nat (bitlen ?c - 1)"
    using False by (simp_all add: binade_def)
  ultimately show ?thesis
    by (cases "binade x + 1 = 0") (simp_all add: pow2_def)
qed

lemma binade_unique:
  assumes "pow2 e \<le> x" "x < pow2 (e + 1)"
  shows "binade x = e"
proof -
  have x: "0 < x" using pow2_pos [of e] assms(1) by linarith
  have "pow2 (binade x) < pow2 (e + 1)" using pow2_binade_le [OF x] assms(2) by linarith
  then have a: "binade x < e + 1" by (rule pow2_less_imp)
  have "pow2 e < pow2 (binade x + 1)" using binade_lt_pow2 [OF x] assms(1) by linarith
  then have "e < binade x + 1" by (rule pow2_less_imp)
  with a show ?thesis by simp
qed

lemma binade_mono:
  assumes "0 < x" "x \<le> y"
  shows "binade x \<le> binade y"
proof -
  have y: "0 < y" using assms by linarith
  have "pow2 (binade x) < pow2 (binade y + 1)"
    using pow2_binade_le [OF assms(1)] binade_lt_pow2 [OF y] assms(2) by linarith
  then have "binade x < binade y + 1" by (rule pow2_less_imp)
  then show ?thesis by simp
qed

text \<open>Rounding to the nearest integer is monotone and fixes the integers.\<close>

lemma round_even_of_int [simp]: "round_even (of_int n) = n"
  by (simp add: round_even_def)

lemma round_even_cases:
  "round_even q = \<lfloor>q\<rfloor> \<or> round_even q = \<lfloor>q\<rfloor> + 1"
  by (simp add: round_even_def Let_def)

lemma round_even_ge_floor: "\<lfloor>q\<rfloor> \<le> round_even q"
  using round_even_cases [of q] by linarith

lemma round_even_le_ceiling: "round_even q \<le> \<lceil>q\<rceil>"
proof (cases "q = of_int \<lfloor>q\<rfloor>")
  case True
  then have "round_even q = \<lfloor>q\<rfloor>" by (metis round_even_of_int)
  then show ?thesis by linarith
next
  case False
  then have "\<lceil>q\<rceil> = \<lfloor>q\<rfloor> + 1" by (metis ceiling_altdef of_int_floor_cancel)
  with round_even_cases [of q] show ?thesis by linarith
qed

lemma round_even_mono:
  assumes "q \<le> q'"
  shows "round_even q \<le> round_even q'"
proof (cases "\<lfloor>q\<rfloor> = \<lfloor>q'\<rfloor>")
  case True
  with assms show ?thesis by (auto simp: round_even_def Let_def)
next
  case False
  with assms have "\<lfloor>q\<rfloor> < \<lfloor>q'\<rfloor>" by (simp add: floor_mono order.strict_iff_order)
  then have "\<lfloor>q\<rfloor> + 1 \<le> \<lfloor>q'\<rfloor>" by simp
  with round_even_cases [of q] round_even_ge_floor [of q'] show ?thesis by linarith
qed

lemma round_even_ge: "of_int n \<le> q \<Longrightarrow> n \<le> round_even q"
  using round_even_mono [of "of_int n" q] by simp

lemma round_even_le: "q \<le> of_int n \<Longrightarrow> round_even q \<le> n"
  using round_even_mono [of q "of_int n"] by simp


text \<open>
  The rounding of a real stays in the closure of its binade, is monotone, gives integers
  for integers, and fixes the integers up to \<open>2 ^ 53\<close>.
\<close>

lemma pow2_diff_52: "pow2 e / pow2 (e - 52) = 2 ^ 52"
proof -
  have "pow2 e = pow2 (e - 52) * pow2 52" using pow2_add [of "e - 52" 52] by simp
  moreover have "pow2 52 = 2 ^ 52" using pow2_nat [of 52] by simp
  ultimately show ?thesis using pow2_pos [of "e - 52"] by simp
qed

lemma pow2_Suc: "pow2 (e + 1) = 2 * pow2 e"
  using pow2_add [of e 1] pow2_nat [of 1] by simp

lemma round_pos_bounds:
  assumes "0 < x"
  shows "pow2 (binade x) \<le> round_pos x" "round_pos x \<le> pow2 (binade x + 1)"
proof -
  let ?e = "binade x"
  let ?u = "pow2 (?e - 52)"
  have u: "0 < ?u" by (rule pow2_pos)
  have e: "pow2 ?e = 2 ^ 52 * ?u" using pow2_diff_52 [of ?e] u by (simp add: field_simps)
  have "pow2 ?e / ?u \<le> x / ?u" using pow2_binade_le [OF assms] u by (simp add: divide_right_mono)
  then have "real_of_int (2 ^ 52) \<le> x / ?u" using pow2_diff_52 [of ?e] by simp
  then have "2 ^ 52 \<le> round_even (x / ?u)" by (rule round_even_ge)
  then have "real_of_int (2 ^ 52) \<le> real_of_int (round_even (x / ?u))" by (simp only: of_int_le_iff)
  then have "real_of_int (2 ^ 52) * ?u \<le> real_of_int (round_even (x / ?u)) * ?u"
    using u by (simp only: mult_le_cancel_right_pos)
  then show "pow2 ?e \<le> round_pos x" using e by (simp add: round_pos_def Let_def)
  have "x / ?u \<le> pow2 (?e + 1) / ?u"
    using binade_lt_pow2 [OF assms] u by (simp add: divide_right_mono)
  then have "x / ?u \<le> real_of_int (2 ^ 53)" using pow2_diff_52 [of ?e] by (simp add: pow2_Suc)
  then have "round_even (x / ?u) \<le> 2 ^ 53" by (rule round_even_le)
  then have "real_of_int (round_even (x / ?u)) \<le> real_of_int (2 ^ 53)" by (simp only: of_int_le_iff)
  then have "real_of_int (round_even (x / ?u)) * ?u \<le> real_of_int (2 ^ 53) * ?u"
    using u by (simp only: mult_le_cancel_right_pos)
  then show "round_pos x \<le> pow2 (?e + 1)" using e by (simp add: round_pos_def Let_def pow2_Suc)
qed

lemma round_pos_pos:
  assumes "0 < x"
  shows "0 < round_pos x"
  using round_pos_bounds(1) [OF assms] pow2_pos [of "binade x"] by linarith

lemma round_pos_mono:
  assumes "0 < x" "x \<le> y"
  shows "round_pos x \<le> round_pos y"
proof (cases "binade x = binade y")
  case True
  let ?u = "pow2 (binade y - 52)"
  have u: "0 < ?u" by (rule pow2_pos)
  from assms(2) u have "x / ?u \<le> y / ?u" by (simp add: divide_right_mono)
  then have "round_even (x / ?u) \<le> round_even (y / ?u)" by (rule round_even_mono)
  then have "real_of_int (round_even (x / ?u)) \<le> real_of_int (round_even (y / ?u))"
    by (simp only: of_int_le_iff)
  then have "real_of_int (round_even (x / ?u)) * ?u \<le> real_of_int (round_even (y / ?u)) * ?u"
    using u by (simp only: mult_le_cancel_right_pos)
  with True show ?thesis by (simp add: round_pos_def Let_def)
next
  case False
  from assms have y: "0 < y" by linarith
  from binade_mono [OF assms] False have "binade x + 1 \<le> binade y" by simp
  then have "pow2 (binade x + 1) \<le> pow2 (binade y)" by (rule pow2_mono)
  with round_pos_bounds(2) [OF assms(1)] round_pos_bounds(1) [OF y] show ?thesis by linarith
qed

lemma round_double_mono:
  assumes "x \<le> y"
  shows "round_double x \<le> round_double y"
proof -
  consider "x = y" | "x < y" "y < 0" | "x < 0" "y = 0" | "x < 0" "0 < y" | "x = 0" "0 < y" | "0 < x" "x < y"
    using assms by linarith
  then show ?thesis
  proof cases
    case 1
    then show ?thesis by simp
  next
    case 2
    then have "0 < - y" "- y \<le> - x" by simp_all
    from round_pos_mono [OF this] 2 show ?thesis by (simp add: round_double_def)
  next
    case 3
    then show ?thesis using round_pos_pos [of "- x"] by (simp add: round_double_def)
  next
    case 4
    then show ?thesis using round_pos_pos [of "- x"] round_pos_pos [of y]
      by (simp add: round_double_def)
  next
    case 5
    then show ?thesis using round_pos_pos [of y] by (simp add: round_double_def)
  next
    case 6
    then have "x \<le> y" by simp
    from round_pos_mono [OF 6(1) this] 6 show ?thesis by (simp add: round_double_def)
  qed
qed

lemma round_double_minus: "round_double (- x) = - round_double x"
  by (simp add: round_double_def)

lemma round_pos_exact:
  assumes "x / pow2 (binade x - 52) = of_int k"
  shows "round_pos x = x"
proof -
  have "round_pos x = of_int k * pow2 (binade x - 52)"
    using assms by (simp add: round_pos_def Let_def)
  also have "\<dots> = x" using pow2_pos [of "binade x - 52"] assms [symmetric] by simp
  finally show ?thesis .
qed

lemma pow2_neg_int: "e \<le> 0 \<Longrightarrow> 1 / pow2 e = of_int (2 ^ nat (- e))"
  by (cases "e = 0") (simp_all add: pow2_def)

lemma pow2_nonneg_int: "0 \<le> e \<Longrightarrow> pow2 e = of_int (2 ^ nat e)"
  by (simp add: pow2_def)

lemma round_pos_int_small:
  assumes "0 < n" "binade (of_int n) \<le> 52"
  shows "round_pos (of_int n) = of_int n"
proof -
  from assms(2) have "binade (real_of_int n) - 52 \<le> 0" by simp
  from pow2_neg_int [OF this]
  have "real_of_int n / pow2 (binade (of_int n) - 52)
      = of_int (n * 2 ^ nat (- (binade (real_of_int n) - 52)))"
    by (simp add: divide_inverse)
  then show ?thesis by (rule round_pos_exact)
qed

lemma round_pos_int_big:
  assumes "52 \<le> binade x"
  shows "\<exists>m. round_pos x = of_int m"
proof -
  from assms have "0 \<le> binade x - 52" by simp
  from pow2_nonneg_int [OF this]
  have "round_pos x = of_int (round_even (x / pow2 (binade x - 52)) * 2 ^ nat (binade x - 52))"
    by (simp add: round_pos_def Let_def)
  then show ?thesis ..
qed

lemma round_pos_int:
  assumes "0 < n"
  shows "\<exists>m. round_pos (of_int n) = of_int m"
proof (cases "binade (of_int n) \<le> 52")
  case True
  from round_pos_int_small [OF assms this] show ?thesis ..
next
  case False
  then have "52 \<le> binade (of_int n)" by simp
  then show ?thesis by (rule round_pos_int_big)
qed

lemma round_double_int: "\<exists>m. round_double (of_int n) = of_int m"
proof -
  consider "n = 0" | "0 < n" | "n < 0" by linarith
  then show ?thesis
  proof cases
    case 1
    then show ?thesis by (simp add: round_double_def)
  next
    case 2
    from round_pos_int [OF this] 2 show ?thesis by (simp add: round_double_def)
  next
    case 3
    then have "0 < - n" by simp
    from round_pos_int [OF this] obtain m where "round_pos (- of_int n) = of_int m" by auto
    then have "round_double (of_int n) = of_int (- m)" using 3 by (simp add: round_double_def)
    then show ?thesis ..
  qed
qed

lemma binade_2_53: "binade (2 ^ 53) = 53"
proof (rule binade_unique)
  show "pow2 53 \<le> 2 ^ 53" using pow2_nat [of 53] by simp
  show "(2::real) ^ 53 < pow2 (53 + 1)" using pow2_nat [of 54] by simp
qed

lemma round_pos_int_53:
  assumes "0 < n" "n \<le> 2 ^ 53"
  shows "round_pos (of_int n) = of_int n"
proof (cases "n = 2 ^ 53")
  case True
  have "(2::real) ^ 53 / pow2 (binade (2 ^ 53) - 52) = 2 ^ 53 / pow2 1"
    unfolding binade_2_53 by simp
  also have "\<dots> = of_int (2 ^ 52)" using pow2_nat [of 1] by simp
  finally have "(2::real) ^ 53 / pow2 (binade (2 ^ 53) - 52) = of_int (2 ^ 52)" .
  from round_pos_exact [OF this] True show ?thesis by simp
next
  case False
  with assms(2) have "n < 2 ^ 53" by simp
  then have "real_of_int n < real_of_int (2 ^ 53)" by (simp only: of_int_less_iff)
  then have lt: "real_of_int n < pow2 53" using pow2_nat [of 53] by simp
  from assms(1) have "0 < real_of_int n" by simp
  from pow2_binade_le [OF this] lt have "pow2 (binade (of_int n)) < pow2 53" by linarith
  then have "binade (real_of_int n) < 53" by (rule pow2_less_imp)
  then have "binade (real_of_int n) \<le> 52" by simp
  from round_pos_int_small [OF assms(1) this] show ?thesis .
qed

lemma round_double_int_53:
  assumes "\<bar>n\<bar> \<le> 2 ^ 53"
  shows "round_double (of_int n) = of_int n"
proof -
  consider "n = 0" | "0 < n" | "n < 0" by linarith
  then show ?thesis
  proof cases
    case 1
    then show ?thesis by (simp add: round_double_def)
  next
    case 2
    with assms have "n \<le> 2 ^ 53" by simp
    from round_pos_int_53 [OF 2 this] 2 show ?thesis by (simp add: round_double_def)
  next
    case 3
    with assms have "0 < - n" "- n \<le> 2 ^ 53" by simp_all
    from round_pos_int_53 [OF this] 3 show ?thesis by (simp add: round_double_def)
  qed
qed

lemma double_big_int:
  assumes "round_double x = x" "2 ^ 52 \<le> \<bar>x\<bar>"
  shows "\<exists>k. x = of_int k"
proof -
  have b52: "binade (2 ^ 52) = 52"
  proof (rule binade_unique)
    show "pow2 52 \<le> 2 ^ 52" using pow2_nat [of 52] by simp
    show "(2::real) ^ 52 < pow2 (52 + 1)" using pow2_nat [of 53] by simp
  qed
  have pos: "\<exists>k. y = of_int k" if "round_pos y = y" "2 ^ 52 \<le> y" for y
  proof -
    have "(0::real) < 2 ^ 52" by simp
    from binade_mono [OF this that(2)] b52 have "52 \<le> binade y" by simp
    from round_pos_int_big [OF this] that(1) show ?thesis by simp
  qed
  show ?thesis
  proof (cases "0 \<le> x")
    case True
    with assms have "round_pos x = x" "2 ^ 52 \<le> x" by (auto simp: round_double_def split: if_splits)
    then show ?thesis by (rule pos)
  next
    case False
    with assms have "round_pos (- x) = - x" "2 ^ 52 \<le> - x"
      by (auto simp: round_double_def split: if_splits)
    from pos [OF this] obtain k where "- x = of_int k" ..
    then have "x = of_int (- k)" by simp
    then show ?thesis ..
  qed
qed

lemma round_double_ceiling:
  assumes "round_double x = x"
  shows "round_double (of_int \<lceil>x\<rceil>) = of_int \<lceil>x\<rceil>"
proof (cases "2 ^ 52 \<le> \<bar>x\<bar>")
  case True
  from double_big_int [OF assms this] obtain k where "x = of_int k" ..
  with assms show ?thesis by simp
next
  case False
  then have "- (2 ^ 52) < x" "x < 2 ^ 52" by simp_all
  then have "\<bar>\<lceil>x\<rceil>\<bar> \<le> 2 ^ 53"
    by (simp add: abs_le_iff ceiling_le_iff) linarith
  then show ?thesis by (rule round_double_int_53)
qed

lemma round_double_floor:
  assumes "round_double x = x"
  shows "round_double (of_int \<lfloor>x\<rfloor>) = of_int \<lfloor>x\<rfloor>"
proof (cases "2 ^ 52 \<le> \<bar>x\<bar>")
  case True
  from double_big_int [OF assms this] obtain k where "x = of_int k" ..
  with assms show ?thesis by simp
next
  case False
  then have "- (2 ^ 52) < x" "x < 2 ^ 52" by simp_all
  then have "\<bar>\<lfloor>x\<rfloor>\<bar> \<le> 2 ^ 53"
    by (simp add: abs_le_iff floor_le_iff) linarith
  then show ?thesis by (rule round_double_int_53)
qed

section \<open>Properties of the bounded sampler\<close>

lemma nth_state_0: "nth_state source s 0 = s"
  by (simp add: nth_state_def)

lemma nth_state_Suc: "nth_state source s (Suc j) = nth_state source (snd (source 4 s)) j"
  by (simp add: nth_state_def funpow_Suc_right del: funpow.simps)

lemma nth_sample_Suc: "nth_sample source s (Suc j) = nth_sample source (snd (source 4 s)) j"
  by (simp add: nth_sample_def nth_state_Suc)

lemma foldl_be_bound: "foldl (\<lambda>acc b. acc * 256 + unat (b :: byte)) a bs < (a + 1) * 256 ^ length bs"
proof (induction bs arbitrary: a)
  case Nil
  then show ?case by simp
next
  case (Cons b bs)
  have "unat b < 256" by (rule unat_byte_less)
  then have "a * 256 + unat b + 1 \<le> (a + 1) * 256" by simp
  then have le: "(a * 256 + unat b + 1) * 256 ^ length bs \<le> (a + 1) * 256 * 256 ^ length bs"
    by (rule mult_le_mono1)
  have "foldl (\<lambda>acc b. acc * 256 + unat b) (a * 256 + unat b) bs
          < (a * 256 + unat b + 1) * 256 ^ length bs"
    by (rule Cons.IH)
  also note le
  also have "(a + 1) * 256 * 256 ^ length bs = (a + 1) * 256 ^ length (b # bs)"
    by (simp only: list.size power_add mult.assoc) simp
  finally show ?case by simp
qed

lemma nth_sample_bounds: "0 \<le> nth_sample source s j" "exact_source source \<Longrightarrow> nth_sample source s j < 4294967296"
proof -
  show "0 \<le> nth_sample source s j" by (simp add: nth_sample_def)
  assume "exact_source source"
  then have "length (elements (fst (source 4 (nth_state source s j)))) = 4"
    by (simp add: exact_source_def)
  with length_buffer_of [of "fst (source 4 (nth_state source s j))"]
  have "length (take 4 (buffer_of (fst (source 4 (nth_state source s j))))) = 4"
    by simp
  with foldl_be_bound [of 0 "take 4 (buffer_of (fst (source 4 (nth_state source s j))))"]
  show "nth_sample source s j < 4294967296"
    by (simp add: nth_sample_def)
qed

lemma uint32_exact:
  assumes "exact_source source"
  shows "uint32 source s = Inr (nat (nth_sample source s 0), snd (source 4 s))"
proof -
  obtain arr s' where src: "source 4 s = (arr, s')" by (cases "source 4 s")
  with assms have "length (elements arr) = 4" by (rule exact_sourceD)
  with length_buffer_of [of arr] have "\<not> length (buffer_of arr) < 4" by simp
  with src show ?thesis
    by (simp add: uint32_def getUint_def nth_sample_def nth_state_0)
qed

lemma rejectionLoop_draws:
  "exact_source source \<Longrightarrow> i \<le> maxIntegerIter \<Longrightarrow>
    \<exists>k. i + k \<le> maxIntegerIter
      \<and> rejectionLoop source rng i s = Inr (nat (nth_sample source s k), nth_state source s (Suc k))
      \<and> (\<forall>j<k. \<not> below_limit (nth_sample source s j) rng)
      \<and> (i + k < maxIntegerIter \<longrightarrow> below_limit (nth_sample source s k) rng)"
proof (induction source rng i s rule: rejectionLoop.induct)
  case (1 source rng i s)
  note ex = \<open>exact_source source\<close>
  let ?s' = "snd (source 4 s)"
  let ?v = "nat (nth_sample source s 0)"
  have u: "uint32 source s = Inr (?v, ?s')" using ex by (rule uint32_exact)
  show ?case
  proof (cases "i \<ge> maxIntegerIter")
    case True
    with "1.prems" have "i = maxIntegerIter" by simp
    then have "rejectionLoop source rng i s = Inr (?v, ?s')"
      using u by (subst rejectionLoop.simps) simp
    then show ?thesis using \<open>i = maxIntegerIter\<close>
      by (intro exI [of _ 0]) (simp add: nth_state_Suc nth_state_0)
  next
    case False
    show ?thesis
    proof (cases "below_limit (int ?v) rng")
      case True
      then have "rejectionLoop source rng i s = Inr (?v, ?s')"
        using u False by (subst rejectionLoop.simps) simp
      then show ?thesis using False True nth_sample_bounds(1) [of source s 0]
        by (intro exI [of _ 0]) (simp add: nth_state_Suc nth_state_0)
    next
      case nb: False
      from False have "Suc i \<le> maxIntegerIter" by simp
      with "1.IH" [OF u refl False _ ex] nb
      obtain k where k: "Suc i + k \<le> maxIntegerIter"
        "rejectionLoop source rng (Suc i) ?s' = Inr (nat (nth_sample source ?s' k), nth_state source ?s' (Suc k))"
        "\<forall>j<k. \<not> below_limit (nth_sample source ?s' j) rng"
        "Suc i + k < maxIntegerIter \<longrightarrow> below_limit (nth_sample source ?s' k) rng"
        by auto
      have r: "rejectionLoop source rng i s = rejectionLoop source rng (Suc i) ?s'"
        using u False nb by (subst rejectionLoop.simps) simp
      have rej: "\<forall>j<Suc k. \<not> below_limit (nth_sample source s j) rng"
      proof (intro allI impI)
        fix j assume "j < Suc k"
        show "\<not> below_limit (nth_sample source s j) rng"
        proof (cases j)
          case 0
          with nb nth_sample_bounds(1) [of source s 0] show ?thesis by simp
        next
          case (Suc j')
          with \<open>j < Suc k\<close> k(3) show ?thesis by (simp add: nth_sample_Suc)
        qed
      qed
      show ?thesis
        using k r rej
        by (intro exI [of _ "Suc k"]) (simp add: nth_sample_Suc nth_state_Suc [of source s])
    qed
  qed
qed


lemma below_limit_nonpos_iff: "below_limit x 0 = False"
  by (simp add: below_limit_def)

lemma below_limit_one: "x < 4294967296 \<Longrightarrow> below_limit x 1"
  by (simp add: below_limit_def maxUInt32_def)

lemma below_limit_neg: "rng < 0 \<Longrightarrow> x < 4294967296 \<Longrightarrow> below_limit x rng"
proof -
  assume r: "rng < 0" and x: "x < 4294967296"
  have "maxUInt32 = (maxUInt32 div rng) * rng + maxUInt32 mod rng" by simp
  moreover have "maxUInt32 mod rng \<le> 0" using r by (rule neg_mod_sign)
  ultimately have "maxUInt32 \<le> (maxUInt32 div rng) * rng" by linarith
  with r x show ?thesis by (simp add: below_limit_def maxUInt32_def)
qed

lemma rejectionSampling_draws:
  assumes "exact_source source"
  shows "\<exists>k\<le>100. rejectionSampling source s rng
           = Inr (remainder (nth_sample source s k) rng, nth_state source s (Suc k))
      \<and> (\<forall>j<k. \<not> below_limit (nth_sample source s j) rng)
      \<and> (k < 100 \<longrightarrow> below_limit (nth_sample source s k) rng)"
proof -
  from rejectionLoop_draws [OF assms, of 0 rng s]
  obtain k where k: "k \<le> maxIntegerIter"
    "rejectionLoop source rng 0 s = Inr (nat (nth_sample source s k), nth_state source s (Suc k))"
    "\<forall>j<k. \<not> below_limit (nth_sample source s j) rng"
    "k < maxIntegerIter \<longrightarrow> below_limit (nth_sample source s k) rng"
    by auto
  from k(2) have "rejectionSampling source s rng
           = Inr (remainder (nth_sample source s k) rng, nth_state source s (Suc k))"
    using nth_sample_bounds(1) [of source s k] by (simp add: rejectionSampling_def)
  with k(1,3,4) show ?thesis by (auto simp: maxIntegerIter_def)
qed

lemma remainder_pos: "0 \<le> x \<Longrightarrow> 0 < rng \<Longrightarrow> remainder x rng = Num (x mod rng)"
  by (cases "x = 0") (simp_all add: remainder_def)

lemma remainder_neg: "0 \<le> x \<Longrightarrow> rng < 0 \<Longrightarrow> remainder x rng = Num (x mod (- rng))"
  by (cases "x = 0") (simp_all add: remainder_def)

lemma integerLessThan_range:
  assumes "exact_source source" "0 < rng"
  shows "\<exists>v s'. rejectionSampling source s rng = Inr (Num v, s') \<and> 0 \<le> v \<and> v < rng"
proof -
  from rejectionSampling_draws [OF assms(1), of s rng]
  obtain k where "rejectionSampling source s rng
           = Inr (remainder (nth_sample source s k) rng, nth_state source s (Suc k))"
    by blast
  then have "rejectionSampling source s rng
           = Inr (Num (nth_sample source s k mod rng), nth_state source s (Suc k))"
    using remainder_pos [OF nth_sample_bounds(1) assms(2), of source s k] by simp
  moreover have "0 \<le> nth_sample source s k mod rng" "nth_sample source s k mod rng < rng"
    using assms(2) by simp_all
  ultimately show ?thesis by blast
qed

text \<open>
  The range that \<open>integer\<close> hands to \<open>integerLessThan\<close> is the rounded \<^verbatim>\<open>h - l + 1\<close>. It
  is exact while \<open>h - l\<close> is below \<open>2 ^ 53\<close>; beyond that it is at least \<open>2 ^ 53\<close>, and a
  sample, which is below \<open>2 ^ 32\<close>, is below \<open>h - l\<close> all the same. The rounded sum of \<open>l\<close> and
  the sample is an integer, and it lies between \<open>l\<close> and \<open>h\<close> because rounding is monotone
  and \<open>l\<close> and \<open>h\<close> are doubles.
\<close>

lemma rejectionSampling_small:
  assumes "exact_source source" "0 < rng"
  shows "\<exists>v s'. rejectionSampling source s rng = Inr (Num v, s') \<and> 0 \<le> v \<and> v < rng
           \<and> v < 4294967296"
proof -
  from rejectionSampling_draws [OF assms(1), of s rng]
  obtain k where "rejectionSampling source s rng
           = Inr (remainder (nth_sample source s k) rng, nth_state source s (Suc k))"
    by blast
  then have "rejectionSampling source s rng
           = Inr (Num (nth_sample source s k mod rng), nth_state source s (Suc k))"
    using remainder_pos [OF nth_sample_bounds(1) assms(2), of source s k] by simp
  moreover have "0 \<le> nth_sample source s k mod rng" "nth_sample source s k mod rng < rng"
    using assms(2) by simp_all
  moreover have "nth_sample source s k mod rng \<le> nth_sample source s k"
    using nth_sample_bounds(1) [of source s k] assms(2) by (simp add: zmod_le_nonneg_dividend)
  then have "nth_sample source s k mod rng < 4294967296"
    using nth_sample_bounds(2) [OF assms(1), of s k] by linarith
  ultimately show ?thesis by blast
qed

lemma integer_range_exact:
  assumes "l \<le> h" "h - l < 2 ^ 53"
  shows "double_add (double_sub (of_int h) (of_int l)) 1 = of_int (h - l + 1)"
proof -
  from assms have "\<bar>h - l\<bar> \<le> 2 ^ 53" "\<bar>h - l + 1\<bar> \<le> 2 ^ 53" by simp_all
  from round_double_int_53 [OF this(1)] round_double_int_53 [OF this(2)]
  show ?thesis by (simp add: double_add_def double_sub_def)
qed

lemma integer_range_big:
  assumes "2 ^ 53 \<le> h - l"
  shows "2 ^ 53 \<le> double_add (double_sub (of_int h) (of_int l)) 1"
proof -
  have r: "round_double (2 ^ 53) = 2 ^ 53"
    using round_double_int_53 [of "2 ^ 53"] by simp
  from assms have "real_of_int (2 ^ 53) \<le> real_of_int (h - l)" by (simp only: of_int_le_iff)
  then have "(2::real) ^ 53 \<le> of_int h - of_int l" by simp
  from round_double_mono [OF this] r
  have "2 ^ 53 \<le> double_sub (of_int h) (of_int l)" by (simp add: double_sub_def)
  then have "2 ^ 53 \<le> double_sub (of_int h) (of_int l) + 1" by simp
  from round_double_mono [OF this] r show ?thesis by (simp add: double_add_def)
qed

lemma integer_sum:
  assumes "exact_source source" "mn \<le> mx" "\<lceil>mn\<rceil> \<le> \<lfloor>mx\<rfloor>"
    "round_double (of_int \<lceil>mn\<rceil>) = of_int \<lceil>mn\<rceil>" "round_double (of_int \<lfloor>mx\<rfloor>) = of_int \<lfloor>mx\<rfloor>"
  shows "\<exists>v w s'. integerLessThan source s (double_add (double_sub (of_int \<lfloor>mx\<rfloor>) (of_int \<lceil>mn\<rceil>)) 1)
             = Inr (Num v, s')
          \<and> 0 \<le> v \<and> v \<le> \<lfloor>mx\<rfloor> - \<lceil>mn\<rceil>
          \<and> integer source s mn mx = Inr (Num w, s')
          \<and> of_int w = double_add (of_int \<lceil>mn\<rceil>) (of_int v) \<and> \<lceil>mn\<rceil> \<le> w \<and> w \<le> \<lfloor>mx\<rfloor>"
proof -
  define l h where "l = \<lceil>mn\<rceil>" and "h = \<lfloor>mx\<rfloor>"
  define rng where "rng = double_add (double_sub (of_int h) (of_int l)) 1"
  from assms(3) have lh: "l \<le> h" by (simp add: l_def h_def)
  have rng: "0 < \<lceil>rng\<rceil> \<and> (\<forall>v. v < \<lceil>rng\<rceil> \<longrightarrow> v < 4294967296 \<longrightarrow> v \<le> h - l)"
  proof (cases "h - l < 2 ^ 53")
    case True
    from integer_range_exact [OF lh True] have "\<lceil>rng\<rceil> = h - l + 1"
      unfolding rng_def by (simp only: ceiling_of_int)
    with lh show ?thesis by simp
  next
    case False
    then have big: "2 ^ 53 \<le> h - l" by simp
    from integer_range_big [OF this] have "real_of_int (2 ^ 53) \<le> rng" by (simp add: rng_def)
    then have "2 ^ 53 \<le> \<lceil>rng\<rceil>" by (simp only: le_ceiling_iff)
    with big show ?thesis by simp
  qed
  then have "0 < \<lceil>rng\<rceil>" ..
  from rejectionSampling_small [OF assms(1) this, of s] obtain v s' where
    v: "rejectionSampling source s \<lceil>rng\<rceil> = Inr (Num v, s')" "0 \<le> v" "v < \<lceil>rng\<rceil>" "v < 4294967296"
    by blast
  with rng have vh: "v \<le> h - l" by blast
  from round_double_int [of "l + v"] obtain w where
    w: "round_double (of_int (l + v)) = of_int w" ..
  from v(2) have "real_of_int l \<le> of_int (l + v)" by simp
  from round_double_mono [OF this] assms(4) w have "real_of_int l \<le> of_int w"
    by (simp add: l_def)
  then have lw: "l \<le> w" by (simp only: of_int_le_iff)
  from vh have "real_of_int (l + v) \<le> of_int h" by (simp only: of_int_le_iff)
  from round_double_mono [OF this] assms(5) w have "real_of_int w \<le> of_int h"
    by (simp add: h_def)
  then have wh: "w \<le> h" by (simp only: of_int_le_iff)
  have il: "integerLessThan source s rng = Inr (Num v, s')"
    using v(1) by (simp add: integerLessThan_def)
  have dw: "double_add (of_int l) (of_int v) = of_int w"
    using w by (simp add: double_add_def)
  from il assms(2) dw have "integer source s mn mx = Inr (Num w, s')"
    by (simp add: integer_def Let_def l_def [symmetric] h_def [symmetric] rng_def [symmetric])
  with il v(2) vh dw lw wh show ?thesis
    unfolding rng_def l_def h_def by (intro exI [of _ v] exI [of _ w] exI [of _ s']) simp
qed

lemma integer_sum_exact:
  assumes "exact_source source" "mn \<le> mx" "\<lceil>mn\<rceil> \<le> \<lfloor>mx\<rfloor>"
    "\<bar>\<lceil>mn\<rceil>\<bar> \<le> 2 ^ 53" "\<bar>\<lfloor>mx\<rfloor>\<bar> \<le> 2 ^ 53" "\<lfloor>mx\<rfloor> - \<lceil>mn\<rceil> < 2 ^ 53"
  shows "\<exists>v s'. integerLessThan source s (of_int (\<lfloor>mx\<rfloor> - \<lceil>mn\<rceil> + 1)) = Inr (Num v, s')
          \<and> integer source s mn mx = Inr (Num (\<lceil>mn\<rceil> + v), s')
          \<and> \<lceil>mn\<rceil> \<le> \<lceil>mn\<rceil> + v \<and> \<lceil>mn\<rceil> + v \<le> \<lfloor>mx\<rfloor>"
proof -
  note r = integer_range_exact [OF assms(3,6)]
  from integer_sum [OF assms(1-3) round_double_int_53 [OF assms(4)] round_double_int_53 [OF assms(5)], of s]
  obtain v w s' where
    v: "integerLessThan source s (of_int (\<lfloor>mx\<rfloor> - \<lceil>mn\<rceil> + 1)) = Inr (Num v, s')"
      "0 \<le> v" "v \<le> \<lfloor>mx\<rfloor> - \<lceil>mn\<rceil>" "integer source s mn mx = Inr (Num w, s')"
      "of_int w = double_add (of_int \<lceil>mn\<rceil>) (of_int v)"
    unfolding r by blast
  from v(2,3) assms(4,5) have "\<bar>\<lceil>mn\<rceil> + v\<bar> \<le> 2 ^ 53" by simp
  from round_double_int_53 [OF this] v(5) have "real_of_int w = of_int (\<lceil>mn\<rceil> + v)"
    by (simp add: double_add_def)
  then have "w = \<lceil>mn\<rceil> + v" by (simp only: of_int_eq_iff)
  with v show ?thesis by auto
qed



text \<open>
  C6. With a source that keeps its contract, \<open>integerLessThan\<close> with an integer range of at
  least 1 returns an integer in \<open>[0, range)\<close>. For integers \<open>mn \<le> mx\<close> that are doubles,
  of magnitude below \<open>2 ^ 1023\<close> so that no difference overflows, \<open>integer\<close> returns the
  double sum of \<open>mn\<close> and the result of \<open>integerLessThan\<close> at the double \<^verbatim>\<open>mx - mn + 1\<close>,
  and that sum is an integer in \<open>[mn, mx]\<close>. When the bounds are at most \<open>2 ^ 53\<close> in
  magnitude and less than \<open>2 ^ 53\<close> apart, no rounding takes place: the range is
  \<open>mx - mn + 1\<close> and the result is \<open>mn\<close> plus the sample. \<open>integer source 5 5\<close> is 5. The
  cap's fallback is one of the paths covered.
\<close>

theorem sampler_bounds:
  assumes "exact_source source"
  shows "(1 \<le> rng \<longrightarrow>
           (\<exists>v s'. integerLessThan source s (of_int rng) = Inr (Num v, s') \<and> 0 \<le> v \<and> v < rng))
       \<and> (mn \<le> mx \<and> round_double (of_int mn) = of_int mn \<and> round_double (of_int mx) = of_int mx
            \<and> \<bar>mn\<bar> < 2 ^ 1023 \<and> \<bar>mx\<bar> < 2 ^ 1023 \<longrightarrow>
           (\<exists>v w s'. integerLessThan source s (double_add (double_sub (of_int mx) (of_int mn)) 1)
                        = Inr (Num v, s')
               \<and> integer source s (of_int mn) (of_int mx) = Inr (Num w, s')
               \<and> of_int w = double_add (of_int mn) (of_int v)
               \<and> mn \<le> w \<and> w \<le> mx))
       \<and> (mn \<le> mx \<and> \<bar>mn\<bar> \<le> 2 ^ 53 \<and> \<bar>mx\<bar> \<le> 2 ^ 53 \<and> mx - mn < 2 ^ 53 \<longrightarrow>
           (\<exists>v s'. integerLessThan source s (of_int (mx - mn + 1)) = Inr (Num v, s')
               \<and> integer source s (of_int mn) (of_int mx) = Inr (Num (mn + v), s')
               \<and> mn \<le> mn + v \<and> mn + v \<le> mx))
       \<and> (\<exists>s'. integer source s 5 5 = Inr (Num 5, s'))"
proof -
  have a: "\<exists>v s'. integerLessThan source s (of_int rng) = Inr (Num v, s') \<and> 0 \<le> v \<and> v < rng"
    if "1 \<le> rng"
    using integerLessThan_range [OF assms, of rng s] that by (simp add: integerLessThan_def)
  have b: "\<exists>v w s'. integerLessThan source s (double_add (double_sub (of_int mx) (of_int mn)) 1)
                        = Inr (Num v, s')
               \<and> integer source s (of_int mn) (of_int mx) = Inr (Num w, s')
               \<and> of_int w = double_add (of_int mn) (of_int v)
               \<and> mn \<le> w \<and> w \<le> mx"
    if "mn \<le> mx" "round_double (of_int mn) = of_int mn" "round_double (of_int mx) = of_int mx"
  proof -
    from that have "real_of_int mn \<le> of_int mx" "\<lceil>real_of_int mn\<rceil> \<le> \<lfloor>real_of_int mx\<rfloor>"
      "round_double (of_int \<lceil>real_of_int mn\<rceil>) = of_int \<lceil>real_of_int mn\<rceil>"
      "round_double (of_int \<lfloor>real_of_int mx\<rfloor>) = of_int \<lfloor>real_of_int mx\<rfloor>"
      by simp_all
    from integer_sum [OF assms this, of s] show ?thesis by (simp only: ceiling_of_int floor_of_int) blast
  qed
  have c: "\<exists>v s'. integerLessThan source s (of_int (mx - mn + 1)) = Inr (Num v, s')
               \<and> integer source s (of_int mn) (of_int mx) = Inr (Num (mn + v), s')
               \<and> mn \<le> mn + v \<and> mn + v \<le> mx"
    if "mn \<le> mx" "\<bar>mn\<bar> \<le> 2 ^ 53" "\<bar>mx\<bar> \<le> 2 ^ 53" "mx - mn < 2 ^ 53" for mn mx :: int
  proof -
    from that have "real_of_int mn \<le> of_int mx" "\<lceil>real_of_int mn\<rceil> \<le> \<lfloor>real_of_int mx\<rfloor>"
      "\<bar>\<lceil>real_of_int mn\<rceil>\<bar> \<le> 2 ^ 53" "\<bar>\<lfloor>real_of_int mx\<rfloor>\<bar> \<le> 2 ^ 53"
      "\<lfloor>real_of_int mx\<rfloor> - \<lceil>real_of_int mn\<rceil> < 2 ^ 53"
      by simp_all
    from integer_sum_exact [OF assms this, of s] show ?thesis by (simp only: ceiling_of_int floor_of_int)
  qed
  have d: "\<exists>s'. integer source s 5 5 = Inr (Num 5, s')"
    using c [of 5 5] by auto
  from a b c d show ?thesis by blast
qed

theorem sampler_bounds_witness:
  "exact_source cyclicSource \<and> (1::int) \<le> 3 \<and> (2::int) \<le> 7
   \<and> round_double (of_int 2) = of_int 2 \<and> round_double (of_int 7) = of_int 7
   \<and> \<bar>2::int\<bar> < 2 ^ 1023 \<and> \<bar>7::int\<bar> < 2 ^ 1023
   \<and> \<bar>2::int\<bar> \<le> 2 ^ 53 \<and> \<bar>7::int\<bar> \<le> 2 ^ 53 \<and> (7::int) - 2 < 2 ^ 53
   \<and> (\<exists>v s'. integerLessThan cyclicSource 0 (of_int 3) = Inr (Num v, s') \<and> 0 \<le> v \<and> v < 3)
   \<and> (\<exists>v w s'. integerLessThan cyclicSource 0 (double_add (double_sub (of_int 7) (of_int 2)) 1)
                  = Inr (Num v, s')
         \<and> integer cyclicSource 0 (of_int 2) (of_int 7) = Inr (Num w, s')
         \<and> of_int w = double_add (of_int 2) (of_int v) \<and> 2 \<le> w \<and> w \<le> 7)
   \<and> (\<exists>v s'. integerLessThan cyclicSource 0 (of_int (7 - 2 + 1)) = Inr (Num v, s')
         \<and> integer cyclicSource 0 (of_int 2) (of_int 7) = Inr (Num (2 + v), s')
         \<and> 2 \<le> 2 + v \<and> 2 + v \<le> 7)"
proof -
  have r: "round_double (of_int 2) = of_int 2" "round_double (of_int 7) = of_int 7"
    by (rule round_double_int_53, simp)+
  have m: "\<bar>2::int\<bar> < 2 ^ 1023" "\<bar>7::int\<bar> < 2 ^ 1023" "\<bar>2::int\<bar> \<le> 2 ^ 53" "\<bar>7::int\<bar> \<le> 2 ^ 53"
    "(7::int) - 2 < 2 ^ 53" "(1::int) \<le> 3" "(2::int) \<le> 7"
    by simp_all
  note t = sampler_bounds [OF exact_cyclicSource, of 3 0 2 7]
  from t [THEN conjunct1] m
  have a: "\<exists>v s'. integerLessThan cyclicSource 0 (of_int 3) = Inr (Num v, s') \<and> 0 \<le> v \<and> v < 3"
    by blast
  from t [THEN conjunct2, THEN conjunct1] r m
  have b: "\<exists>v w s'. integerLessThan cyclicSource 0 (double_add (double_sub (of_int 7) (of_int 2)) 1)
                  = Inr (Num v, s')
         \<and> integer cyclicSource 0 (of_int 2) (of_int 7) = Inr (Num w, s')
         \<and> of_int w = double_add (of_int 2) (of_int v) \<and> 2 \<le> w \<and> w \<le> 7"
    by blast
  from t [THEN conjunct2, THEN conjunct2, THEN conjunct1] m
  have c: "\<exists>v s'. integerLessThan cyclicSource 0 (of_int (7 - 2 + 1)) = Inr (Num v, s')
         \<and> integer cyclicSource 0 (of_int 2) (of_int 7) = Inr (Num (2 + v), s')
         \<and> 2 \<le> 2 + v \<and> 2 + v \<le> 7"
    by blast
  from exact_cyclicSource r m a b c show ?thesis by blast
qed

lemma nth_state_onesSource: "nth_state onesSource s j = s + j"
  by (induction j arbitrary: s) (simp_all add: nth_state_0 nth_state_Suc onesSource_def)

lemma nth_sample_onesSource: "nth_sample onesSource s j = 4294967295"
  by (simp add: nth_sample_def onesSource_def replicate_num)

lemma cyclicSource_4_0: "cyclicSource 4 0 = (fresh [0, 1, 2, 3], 4)"
  by (simp add: cyclicSource_def upt_num)

lemma nth_sample_cyclic_0: "nth_sample cyclicSource 0 0 = 66051"
  by (simp add: nth_sample_def nth_state_0 cyclicSource_4_0)

lemma nth_state_cyclicSource: "nth_state cyclicSource s j = s + 4 * j"
  by (induction j arbitrary: s) (simp_all add: nth_state_0 nth_state_Suc cyclicSource_def)

text \<open>
  Beyond \<open>2 ^ 53\<close> the sum is rounded: between \<open>2 ^ 53\<close> and \<open>2 ^ 53 + 4\<close> the cyclic source
  gives the sample 1, and \<open>integer\<close> returns \<open>2 ^ 53\<close>, the double nearest to \<open>2 ^ 53 + 1\<close>.
\<close>

lemma binade_2_53_1: "binade 9007199254740993 = 53"
  by (rule binade_unique) (simp_all add: pow2_def)

lemma round_double_2_53_1: "round_double 9007199254740993 = 9007199254740992"
  by (simp add: round_double_def round_pos_def round_even_def binade_2_53_1 pow2_def Let_def)

lemma integerLessThan_cyclic_5: "integerLessThan cyclicSource 0 5 = Inr (Num 1, 4)"
proof -
  have "rejectionLoop cyclicSource 5 0 0 = Inr (66051, 4)"
    by (subst rejectionLoop.simps)
      (simp add: uint32_def getUint_def cyclicSource_4_0 below_limit_def maxUInt32_def
        maxIntegerIter_def)
  then show ?thesis
    by (simp add: integerLessThan_def rejectionSampling_def remainder_def)
qed

lemma integer_rounds_sum:
  "integer cyclicSource 0 9007199254740992 9007199254740996 = Inr (Num 9007199254740992, 4)"
proof -
  have "double_add (double_sub (of_int 9007199254740996) (of_int 9007199254740992)) 1 = of_int (9007199254740996 - 9007199254740992 + 1)"
    by (rule integer_range_exact) simp_all
  then have "double_add (double_sub 9007199254740996 9007199254740992) 1 = 5" by simp
  then show ?thesis
    by (simp add: integer_def integerLessThan_cyclic_5 double_add_def round_double_2_53_1)
qed

text \<open>
  C5, as the code has it. With a source that keeps its contract and an integer range of
  at least 1, \<open>integerLessThan\<close> stops after at most 101 draws of a 32-bit integer: there
  is a \<open>k \<le> 100\<close> such that the draws before the \<open>k\<close>-th (counting from 0) were all at or
  above \<open>floor (2 ^ 32 / range) * range\<close>, the \<open>k\<close>-th draw is below it unless \<open>k = 100\<close>, and
  the result is the \<open>k\<close>-th draw modulo the range. The draw with \<open>k = 100\<close>, the 101st, is
  returned without being tested. With range 1 the first draw is accepted and 0 returned.
\<close>

theorem integerLessThan_draw_cap:
  assumes "exact_source source" "1 \<le> rng"
  shows "(\<exists>k\<le>100.
            integerLessThan source s (of_int rng)
              = Inr (Num (nth_sample source s k mod rng), nth_state source s (Suc k))
            \<and> (\<forall>j<k. \<not> nth_sample source s j < (maxUInt32 div rng) * rng)
            \<and> (k < 100 \<longrightarrow> nth_sample source s k < (maxUInt32 div rng) * rng))
       \<and> integerLessThan source s 1 = Inr (Num 0, nth_state source s 1)"
proof -
  from assms(2) have pos: "0 < rng" "rng \<noteq> 0" by simp_all
  from rejectionSampling_draws [OF assms(1), of s rng]
  obtain k where k: "k \<le> 100"
    "rejectionSampling source s rng
       = Inr (remainder (nth_sample source s k) rng, nth_state source s (Suc k))"
    "\<forall>j<k. \<not> below_limit (nth_sample source s j) rng"
    "k < 100 \<longrightarrow> below_limit (nth_sample source s k) rng"
    by blast
  have a: "integerLessThan source s (of_int rng)
              = Inr (Num (nth_sample source s k mod rng), nth_state source s (Suc k))"
    using k(2) remainder_pos [OF nth_sample_bounds(1) pos(1), of source s k]
    by (simp add: integerLessThan_def)
  have b: "\<forall>j<k. \<not> nth_sample source s j < (maxUInt32 div rng) * rng"
    using k(3) pos(2) by (simp add: below_limit_def)
  have c: "k < 100 \<longrightarrow> nth_sample source s k < (maxUInt32 div rng) * rng"
    using k(4) pos(2) by (simp add: below_limit_def)
  from rejectionSampling_draws [OF assms(1), of s 1]
  obtain k1 where k1: "k1 \<le> 100"
    "rejectionSampling source s 1
       = Inr (remainder (nth_sample source s k1) 1, nth_state source s (Suc k1))"
    "\<forall>j<k1. \<not> below_limit (nth_sample source s j) 1"
    by blast
  have "below_limit (nth_sample source s 0) 1"
    using nth_sample_bounds(2) [OF assms(1), of s 0] by (rule below_limit_one)
  with k1(3) have "k1 = 0" by (cases k1) auto
  with k1(2) have d: "integerLessThan source s 1 = Inr (Num 0, nth_state source s 1)"
    by (simp add: integerLessThan_def remainder_def)
  from k(1) a b c d show ?thesis by blast
qed

theorem integerLessThan_draw_cap_witness:
  "exact_source cyclicSource \<and> (1::int) \<le> 7
   \<and> (\<exists>k\<le>100.
            integerLessThan cyclicSource 0 (of_int 7)
              = Inr (Num (nth_sample cyclicSource 0 k mod 7), nth_state cyclicSource 0 (Suc k)))
   \<and> integerLessThan cyclicSource 0 1 = Inr (Num 0, 4)"
  using integerLessThan_draw_cap [OF exact_cyclicSource, of 7 0] exact_cyclicSource
  by (auto simp: nth_state_cyclicSource)

text \<open>
  C5, as the claim has it (at most 100 draws), fails: on the source of 255-bytes with range
  3 every draw is \<open>2 ^ 32 - 1\<close>, which is not below the limit \<open>2 ^ 32 - 1\<close>, and the source
  has been called 101 times when \<open>integerLessThan\<close> returns.
\<close>

theorem integerLessThan_101_draws:
  "integerLessThan onesSource 0 3 = Inr (Num 0, 101)"
proof -
  from rejectionSampling_draws [OF exact_onesSource, of 0 3]
  obtain k where k: "k \<le> 100"
    "rejectionSampling onesSource 0 3
       = Inr (remainder (nth_sample onesSource 0 k) 3, nth_state onesSource 0 (Suc k))"
    "k < 100 \<longrightarrow> below_limit (nth_sample onesSource 0 k) 3"
    by blast
  have "\<not> below_limit 4294967295 3"
    by (simp add: below_limit_def maxUInt32_def)
  with k(1,3) have "k = 100" by (simp add: nth_sample_onesSource)
  with k(2) show ?thesis
    by (simp add: integerLessThan_def nth_sample_onesSource nth_state_onesSource remainder_def)
qed

text \<open>
  C4, as the code has it. \<open>integer\<close> with \<open>mx < mn\<close> returns \<open>NaN\<close>, which is no integer, and
  leaves the source untouched. \<open>integerLessThan\<close> with a range whose ceiling is 0 returns
  \<open>NaN\<close> after 101 draws. A range whose ceiling is negative is not signalled: the first
  draw is accepted and its remainder modulo the absolute value of the range is returned.
\<close>

theorem invalid_range_results:
  "(mx < mn \<longrightarrow> integer source s mn mx = Inr (NaN, s) \<and> NaN \<noteq> Num v)
   \<and> (exact_source source \<and> \<lceil>r\<rceil> = 0 \<longrightarrow>
        integerLessThan source s r = Inr (NaN, nth_state source s 101))
   \<and> (exact_source source \<and> \<lceil>r\<rceil> < 0 \<longrightarrow>
        integerLessThan source s r
          = Inr (Num (nth_sample source s 0 mod (- \<lceil>r\<rceil>)), nth_state source s 1))"
proof -
  have a: "mx < mn \<longrightarrow> integer source s mn mx = Inr (NaN, s) \<and> NaN \<noteq> Num v"
    by (simp add: integer_def)
  have b: "integerLessThan source s r = Inr (NaN, nth_state source s 101)"
    if ex: "exact_source source" and z: "\<lceil>r\<rceil> = 0"
  proof -
    from rejectionSampling_draws [OF ex, of s 0]
    obtain k where k: "k \<le> 100"
      "rejectionSampling source s 0
         = Inr (remainder (nth_sample source s k) 0, nth_state source s (Suc k))"
      "k < 100 \<longrightarrow> below_limit (nth_sample source s k) 0"
      by blast
    from k(1,3) have "k = 100" by (simp add: below_limit_def)
    with k(2) z show ?thesis by (simp add: integerLessThan_def remainder_def)
  qed
  have c: "integerLessThan source s r
          = Inr (Num (nth_sample source s 0 mod (- \<lceil>r\<rceil>)), nth_state source s 1)"
    if ex: "exact_source source" and n: "\<lceil>r\<rceil> < 0"
  proof -
    from rejectionSampling_draws [OF ex, of s "\<lceil>r\<rceil>"]
    obtain k where k: "k \<le> 100"
      "rejectionSampling source s \<lceil>r\<rceil>
         = Inr (remainder (nth_sample source s k) \<lceil>r\<rceil>, nth_state source s (Suc k))"
      "\<forall>j<k. \<not> below_limit (nth_sample source s j) \<lceil>r\<rceil>"
      by blast
    have "below_limit (nth_sample source s 0) \<lceil>r\<rceil>"
      using n nth_sample_bounds(2) [OF ex, of s 0] by (rule below_limit_neg)
    with k(3) have "k = 0" by (cases k) auto
    with k(2) show ?thesis
      using remainder_neg [OF nth_sample_bounds(1) n, of source s 0]
      by (simp add: integerLessThan_def)
  qed
  from a b c show ?thesis by blast
qed

theorem invalid_range_results_witness:
  "(5::real) < 15 \<and> integer cyclicSource 0 15 5 = Inr (NaN, 0)
   \<and> exact_source cyclicSource \<and> \<lceil>0::real\<rceil> = 0
   \<and> integerLessThan cyclicSource 0 0 = Inr (NaN, 404)
   \<and> \<lceil>-5::real\<rceil> < 0
   \<and> integerLessThan cyclicSource 0 (-5) = Inr (Num 1, 4)"
  using invalid_range_results [of 5 15 cyclicSource 0 0 0]
    invalid_range_results [of 5 15 cyclicSource 0 0 "-5"] exact_cyclicSource
  by (simp add: nth_state_cyclicSource nth_sample_cyclic_0)

text \<open>
  C4, as the claim has it (a negative range is signalled as invalid), fails: with range
  \<open>-5\<close> on the cyclic source the result is the number 1.
\<close>

theorem negative_range_not_signalled:
  "integerLessThan cyclicSource 0 (-5) = Inr (Num 1, 4)"
proof -
  have "rejectionLoop cyclicSource (-5) 0 0 = Inr (66051, 4)"
    by (subst rejectionLoop.simps)
      (simp add: uint32_def getUint_def cyclicSource_4_0 below_limit_def maxUInt32_def
        maxIntegerIter_def)
  then show ?thesis
    by (simp add: integerLessThan_def rejectionSampling_def remainder_def)
qed

lemma binade_5_2: "binade (5 / 2) = 1"
  by (rule binade_unique) (simp_all add: pow2_def)

lemma binade_29_4: "binade (29 / 4) = 2"
  by (rule binade_unique) (simp_all add: pow2_def)

lemma round_double_5_2: "round_double (5 / 2) = 5 / 2"
  by (simp add: round_double_def round_pos_def round_even_def binade_5_2 pow2_def Let_def)

lemma round_double_29_4: "round_double (29 / 4) = 29 / 4"
  by (simp add: round_double_def round_pos_def round_even_def binade_29_4 pow2_def Let_def)


text \<open>
  C10. With a source that keeps its contract, \<open>integer\<close> narrows fractional bounds inward.
  For doubles \<open>mn \<le> mx\<close> with \<open>ceiling mn \<le> floor mx\<close>, of magnitude below \<open>2 ^ 1023\<close>, it
  returns the double sum of \<open>ceiling mn\<close> and the result of \<open>integerLessThan\<close> at the double
  \<^verbatim>\<open>h - l + 1\<close> for \<open>l = ceiling mn\<close> and \<open>h = floor mx\<close>, an integer between \<open>ceiling mn\<close> and
  \<open>floor mx\<close>; when the bounds are at most \<open>2 ^ 53\<close> in magnitude and \<open>h - l\<close> is below
  \<open>2 ^ 53\<close>, the range is \<open>h - l + 1\<close> and the result is \<open>l\<close> plus the sample. \<open>integerLessThan\<close>
  with a positive range \<open>r\<close> samples for the ceiling of \<open>r\<close>: its draws are tested against
  \<open>floor (2 ^ 32 / ceiling r) * ceiling r\<close> and the result is a draw modulo \<open>ceiling r\<close>, an
  integer in \<open>[0, ceiling r)\<close>.
\<close>

theorem integer_fractional_bounds:
  assumes "exact_source source"
  shows "(mn \<le> mx \<and> \<lceil>mn\<rceil> \<le> \<lfloor>mx\<rfloor> \<and> round_double mn = mn \<and> round_double mx = mx
            \<and> \<bar>mn\<bar> < 2 ^ 1023 \<and> \<bar>mx\<bar> < 2 ^ 1023 \<longrightarrow>
           (\<exists>v w s'. integerLessThan source s
                        (double_add (double_sub (of_int \<lfloor>mx\<rfloor>) (of_int \<lceil>mn\<rceil>)) 1)
                        = Inr (Num v, s')
              \<and> integer source s mn mx = Inr (Num w, s')
              \<and> of_int w = double_add (of_int \<lceil>mn\<rceil>) (of_int v)
              \<and> \<lceil>mn\<rceil> \<le> w \<and> w \<le> \<lfloor>mx\<rfloor>))
       \<and> (mn \<le> mx \<and> \<lceil>mn\<rceil> \<le> \<lfloor>mx\<rfloor> \<and> \<bar>mn\<bar> \<le> 2 ^ 53 \<and> \<bar>mx\<bar> \<le> 2 ^ 53
            \<and> \<lfloor>mx\<rfloor> - \<lceil>mn\<rceil> < 2 ^ 53 \<longrightarrow>
           (\<exists>v s'. integerLessThan source s (of_int (\<lfloor>mx\<rfloor> - \<lceil>mn\<rceil> + 1)) = Inr (Num v, s')
              \<and> integer source s mn mx = Inr (Num (\<lceil>mn\<rceil> + v), s')
              \<and> \<lceil>mn\<rceil> \<le> \<lceil>mn\<rceil> + v \<and> \<lceil>mn\<rceil> + v \<le> \<lfloor>mx\<rfloor>))
       \<and> (0 < r \<longrightarrow>
           (\<exists>k\<le>100.
              integerLessThan source s r
                = Inr (Num (nth_sample source s k mod \<lceil>r\<rceil>), nth_state source s (Suc k))
              \<and> (\<forall>j<k. \<not> nth_sample source s j < (maxUInt32 div \<lceil>r\<rceil>) * \<lceil>r\<rceil>)
              \<and> (k < 100 \<longrightarrow> nth_sample source s k < (maxUInt32 div \<lceil>r\<rceil>) * \<lceil>r\<rceil>)
              \<and> 0 \<le> nth_sample source s k mod \<lceil>r\<rceil> \<and> nth_sample source s k mod \<lceil>r\<rceil> < \<lceil>r\<rceil>))"
proof -
  have a: "\<exists>v w s'. integerLessThan source s
                        (double_add (double_sub (of_int \<lfloor>mx\<rfloor>) (of_int \<lceil>mn\<rceil>)) 1)
                        = Inr (Num v, s')
              \<and> integer source s mn mx = Inr (Num w, s')
              \<and> of_int w = double_add (of_int \<lceil>mn\<rceil>) (of_int v)
              \<and> \<lceil>mn\<rceil> \<le> w \<and> w \<le> \<lfloor>mx\<rfloor>"
    if "mn \<le> mx" "\<lceil>mn\<rceil> \<le> \<lfloor>mx\<rfloor>" "round_double mn = mn" "round_double mx = mx"
    using integer_sum [OF assms that(1,2) round_double_ceiling [OF that(3)]
        round_double_floor [OF that(4)], of s]
    by blast
  have b: "\<exists>v s'. integerLessThan source s (of_int (\<lfloor>mx\<rfloor> - \<lceil>mn\<rceil> + 1)) = Inr (Num v, s')
              \<and> integer source s mn mx = Inr (Num (\<lceil>mn\<rceil> + v), s')
              \<and> \<lceil>mn\<rceil> \<le> \<lceil>mn\<rceil> + v \<and> \<lceil>mn\<rceil> + v \<le> \<lfloor>mx\<rfloor>"
    if "mn \<le> mx" "\<lceil>mn\<rceil> \<le> \<lfloor>mx\<rfloor>" "\<bar>mn\<bar> \<le> 2 ^ 53" "\<bar>mx\<bar> \<le> 2 ^ 53"
      "\<lfloor>mx\<rfloor> - \<lceil>mn\<rceil> < 2 ^ 53"
  proof -
    from that(3) have "\<bar>\<lceil>mn\<rceil>\<bar> \<le> 2 ^ 53"
      by (simp add: abs_le_iff ceiling_le_iff) linarith
    moreover from that(4) have "\<bar>\<lfloor>mx\<rfloor>\<bar> \<le> 2 ^ 53"
      by (simp add: abs_le_iff floor_le_iff) linarith
    ultimately show ?thesis
      using integer_sum_exact [OF assms that(1,2) _ _ that(5), of s] by blast
  qed
  have c: "\<exists>k\<le>100.
              integerLessThan source s r
                = Inr (Num (nth_sample source s k mod \<lceil>r\<rceil>), nth_state source s (Suc k))
              \<and> (\<forall>j<k. \<not> nth_sample source s j < (maxUInt32 div \<lceil>r\<rceil>) * \<lceil>r\<rceil>)
              \<and> (k < 100 \<longrightarrow> nth_sample source s k < (maxUInt32 div \<lceil>r\<rceil>) * \<lceil>r\<rceil>)
              \<and> 0 \<le> nth_sample source s k mod \<lceil>r\<rceil> \<and> nth_sample source s k mod \<lceil>r\<rceil> < \<lceil>r\<rceil>"
    if "0 < r"
  proof -
    from that have p: "0 < \<lceil>r\<rceil>" by simp
    then have "\<lceil>r\<rceil> \<noteq> 0" by linarith
    note pos = p this
    from rejectionSampling_draws [OF assms, of s "\<lceil>r\<rceil>"]
    obtain k where k: "k \<le> 100"
      "rejectionSampling source s \<lceil>r\<rceil>
         = Inr (remainder (nth_sample source s k) \<lceil>r\<rceil>, nth_state source s (Suc k))"
      "\<forall>j<k. \<not> below_limit (nth_sample source s j) \<lceil>r\<rceil>"
      "k < 100 \<longrightarrow> below_limit (nth_sample source s k) \<lceil>r\<rceil>"
      by blast
    have 1: "integerLessThan source s r
                = Inr (Num (nth_sample source s k mod \<lceil>r\<rceil>), nth_state source s (Suc k))"
      using k(2) remainder_pos [OF nth_sample_bounds(1) pos(1), of source s k]
      by (simp add: integerLessThan_def)
    have 2: "\<forall>j<k. \<not> nth_sample source s j < (maxUInt32 div \<lceil>r\<rceil>) * \<lceil>r\<rceil>"
      using k(3) pos(2) by (simp add: below_limit_def)
    have 3: "k < 100 \<longrightarrow> nth_sample source s k < (maxUInt32 div \<lceil>r\<rceil>) * \<lceil>r\<rceil>"
      using k(4) pos(2) by (simp add: below_limit_def)
    have 4: "0 \<le> nth_sample source s k mod \<lceil>r\<rceil>" "nth_sample source s k mod \<lceil>r\<rceil> < \<lceil>r\<rceil>"
      using pos(1) by simp_all
    from k(1) 1 2 3 4 show ?thesis by blast
  qed
  from a b c show ?thesis by blast
qed

theorem integer_fractional_bounds_witness:
  "exact_source cyclicSource \<and> (5/2 :: real) \<le> 29/4 \<and> \<lceil>5/2 :: real\<rceil> \<le> \<lfloor>29/4 :: real\<rfloor>
   \<and> round_double (5/2) = 5/2 \<and> round_double (29/4) = 29/4
   \<and> \<bar>5/2 :: real\<bar> < 2 ^ 1023 \<and> \<bar>29/4 :: real\<bar> < 2 ^ 1023
   \<and> \<bar>5/2 :: real\<bar> \<le> 2 ^ 53 \<and> \<bar>29/4 :: real\<bar> \<le> 2 ^ 53
   \<and> \<lfloor>29/4 :: real\<rfloor> - \<lceil>5/2 :: real\<rceil> < 2 ^ 53 \<and> (0::real) < 5/2
   \<and> (\<exists>v w s'. integerLessThan cyclicSource 0 (double_add (double_sub (of_int 7) (of_int 3)) 1)
                  = Inr (Num v, s')
         \<and> integer cyclicSource 0 (5/2) (29/4) = Inr (Num w, s')
         \<and> of_int w = double_add (of_int 3) (of_int v) \<and> 3 \<le> w \<and> w \<le> 7)
   \<and> (\<exists>v s'. integerLessThan cyclicSource 0 (of_int 5) = Inr (Num v, s')
         \<and> integer cyclicSource 0 (5/2) (29/4) = Inr (Num (3 + v), s')
         \<and> 3 \<le> 3 + v \<and> 3 + v \<le> 7)
   \<and> (\<exists>k\<le>100. integerLessThan cyclicSource 0 (5/2)
                  = Inr (Num (nth_sample cyclicSource 0 k mod 3), nth_state cyclicSource 0 (Suc k)))"
proof -
  have c: "\<lceil>5/2 :: real\<rceil> = 3" "\<lfloor>29/4 :: real\<rfloor> = 7" by simp_all
  have m: "(5/2 :: real) \<le> 29/4" "\<bar>5/2 :: real\<bar> < 2 ^ 1023" "\<bar>29/4 :: real\<bar> < 2 ^ 1023"
    "\<bar>5/2 :: real\<bar> \<le> 2 ^ 53" "\<bar>29/4 :: real\<bar> \<le> 2 ^ 53" "(0::real) < 5/2"
    by simp_all
  have m2: "\<lceil>5/2 :: real\<rceil> \<le> \<lfloor>29/4 :: real\<rfloor>" "\<lfloor>29/4 :: real\<rfloor> - \<lceil>5/2 :: real\<rceil> < 2 ^ 53"
    unfolding c by simp_all
  note r = round_double_5_2 round_double_29_4
  note t = integer_fractional_bounds [OF exact_cyclicSource, of "5/2" "29/4" 0 "5/2"]
  from t [THEN conjunct1] m m2 r
  have "\<exists>v w s'. integerLessThan cyclicSource 0
                    (double_add (double_sub (of_int \<lfloor>29/4 :: real\<rfloor>) (of_int \<lceil>5/2 :: real\<rceil>)) 1)
                  = Inr (Num v, s')
         \<and> integer cyclicSource 0 (5/2) (29/4) = Inr (Num w, s')
         \<and> of_int w = double_add (of_int \<lceil>5/2 :: real\<rceil>) (of_int v)
         \<and> \<lceil>5/2 :: real\<rceil> \<le> w \<and> w \<le> \<lfloor>29/4 :: real\<rfloor>"
    by blast
  then have a: "\<exists>v w s'. integerLessThan cyclicSource 0 (double_add (double_sub (of_int 7) (of_int 3)) 1)
                  = Inr (Num v, s')
         \<and> integer cyclicSource 0 (5/2) (29/4) = Inr (Num w, s')
         \<and> of_int w = double_add (of_int 3) (of_int v) \<and> 3 \<le> w \<and> w \<le> 7"
    unfolding c .
  from t [THEN conjunct2, THEN conjunct1] m m2
  have "\<exists>v s'. integerLessThan cyclicSource 0 (of_int (\<lfloor>29/4 :: real\<rfloor> - \<lceil>5/2 :: real\<rceil> + 1))
                 = Inr (Num v, s')
         \<and> integer cyclicSource 0 (5/2) (29/4) = Inr (Num (\<lceil>5/2 :: real\<rceil> + v), s')
         \<and> \<lceil>5/2 :: real\<rceil> \<le> \<lceil>5/2 :: real\<rceil> + v \<and> \<lceil>5/2 :: real\<rceil> + v \<le> \<lfloor>29/4 :: real\<rfloor>"
    by blast
  then have b: "\<exists>v s'. integerLessThan cyclicSource 0 (of_int 5) = Inr (Num v, s')
         \<and> integer cyclicSource 0 (5/2) (29/4) = Inr (Num (3 + v), s')
         \<and> 3 \<le> 3 + v \<and> 3 + v \<le> 7"
    unfolding c by simp
  from t [THEN conjunct2, THEN conjunct2] m
  have "\<exists>k\<le>100. integerLessThan cyclicSource 0 (5/2)
                  = Inr (Num (nth_sample cyclicSource 0 k mod \<lceil>5/2 :: real\<rceil>),
                         nth_state cyclicSource 0 (Suc k))"
    by blast
  then have d: "\<exists>k\<le>100. integerLessThan cyclicSource 0 (5/2)
                  = Inr (Num (nth_sample cyclicSource 0 k mod 3), nth_state cyclicSource 0 (Suc k))"
    unfolding c .
  from exact_cyclicSource m m2 r a b d show ?thesis by blast
qed

section \<open>Properties of the formatter\<close>

lemma round_double_pos:
  assumes "0 < x"
  shows "0 < round_double x"
  using assms round_pos_pos [OF assms] by (simp add: round_double_def)

lemma format_step_pos:
  assumes "0 < msk" "0 < sz" "0 < alen"
  shows "0 < format_step msk sz alen"
proof -
  have "0 < double_1_6 * real msk" using assms(1) by (simp add: double_1_6_def)
  then have "0 < round_double (double_1_6 * real msk) * real sz"
    using assms(2) round_double_pos by simp
  then have "0 < round_double (round_double (double_1_6 * real msk) * real sz) / real alen"
    using assms(3) round_double_pos by simp
  then have "0 < round_double
            (round_double (round_double (double_1_6 * real msk) * real sz) / real alen)"
    by (rule round_double_pos)
  then show ?thesis by (simp add: format_step_def)
qed

lemma format_step_0: "format_step msk 0 alen = 0"
  by (simp add: format_step_def round_double_def)

lemma alphabet_mask_pos: "0 < unat (alphabet_mask alen)"
proof -
  have "odd (alphabet_mask alen)"
    by (simp add: alphabet_mask_def)
  then have "alphabet_mask alen \<noteq> 0" by auto
  then show ?thesis by (simp add: unat_gt_0)
qed

lemma set_char_at: "set (char_at alphabet k) \<subseteq> set alphabet"
  by (auto simp: char_at_def)

lemma length_char_at: "length (char_at alphabet k) = (if k < length alphabet then 1 else 0)"
  by (simp add: char_at_def)

lemma format_batch_sound:
  "(case format_batch alphabet msk sz bytes i idstr of
      Return r \<Rightarrow> length r = sz \<and> set r \<subseteq> set idstr \<union> set alphabet
    | Exhausted idstr' \<Rightarrow> set idstr' \<subseteq> set idstr \<union> set alphabet)"
proof (induction i arbitrary: idstr)
  case 0
  show ?case by simp
next
  case (Suc i)
  let ?id' = "idstr @ char_at alphabet (unat (byte_at bytes i AND msk))"
  have sub: "set ?id' \<subseteq> set idstr \<union> set alphabet"
    using set_char_at [of alphabet] by auto
  show ?case
  proof (cases "length ?id' = sz")
    case True
    with sub show ?thesis by (simp add: Let_def)
  next
    case False
    with Suc.IH [of ?id'] sub show ?thesis
      by (auto simp: Let_def split: batch.splits)
  qed
qed

lemma format_batch_progress:
  "length idstr < sz \<Longrightarrow>
   (case format_batch alphabet msk sz bytes i idstr of
      Return r \<Rightarrow> True
    | Exhausted idstr' \<Rightarrow> length idstr \<le> length idstr' \<and> length idstr' < sz
        \<and> ((\<exists>j<i. accepted alphabet msk bytes j) \<longrightarrow> length idstr < length idstr'))"
proof (induction i arbitrary: idstr)
  case 0
  then show ?case by simp
next
  case (Suc i)
  let ?id' = "idstr @ char_at alphabet (unat (byte_at bytes i AND msk))"
  show ?case
  proof (cases "length ?id' = sz")
    case True
    then show ?thesis by (simp add: Let_def)
  next
    case False
    with Suc.prems have lt: "length ?id' < sz"
      by (simp add: length_char_at split: if_splits)
    have grow: "accepted alphabet msk bytes i \<Longrightarrow> length idstr < length ?id'"
      by (simp add: accepted_def length_char_at)
    have ex: "(\<exists>j<Suc i. accepted alphabet msk bytes j)
        \<longleftrightarrow> accepted alphabet msk bytes i \<or> (\<exists>j<i. accepted alphabet msk bytes j)"
      by (auto simp: less_Suc_eq)
    from Suc.IH [OF lt] False grow show ?thesis
      unfolding ex by (auto simp: Let_def length_char_at accepted_def split: batch.splits)
  qed
qed

lemmas format_loop_induct = format_loop.raw_induct [rotated 1, consumes 1, case_names step]

lemma format_loop_sound:
  assumes "format_loop random alphabet msk step sz idstr s = Some y"
  shows "set idstr \<subseteq> set alphabet \<Longrightarrow> length (fst y) = sz \<and> set (fst y) \<subseteq> set alphabet"
  using assms
proof (induction rule: format_loop_induct)
  case (step loop random alphabet msk step sz idstr s y)
  obtain bytes s' where src: "random step s = (bytes, s')" by (cases "random step s")
  note snd = format_batch_sound [where alphabet = alphabet and msk = msk and sz = sz
      and bytes = "elements bytes" and i = step and idstr = idstr]
  show ?case
  proof (cases "format_batch alphabet msk sz (elements bytes) step idstr")
    case (Return r)
    with step(2) src have "y = (r, s')" by simp
    with snd Return step(3) show ?thesis by auto
  next
    case (Exhausted idstr')
    with step(2) src have "loop random alphabet msk step sz idstr' s' = Some y"
      by simp
    moreover from snd Exhausted step(3) have "set idstr' \<subseteq> set alphabet" by auto
    ultimately show ?thesis by (rule step(1))
  qed
qed

lemma format_loop_no_step:
  assumes "format_loop random alphabet msk step sz idstr s = Some y"
  shows "step \<noteq> 0"
  using assms
proof (induction rule: format_loop_induct)
  case (step loop random alphabet msk step sz idstr s y)
  obtain bytes s' where src: "random step s = (bytes, s')" by (cases "random step s")
  show ?case
  proof
    assume z: "step = 0"
    with step(2) src have "loop random alphabet msk step sz idstr s' = Some y" by simp
    from step(1) [OF this] z show False by simp
  qed
qed

lemma accepted_count_Suc:
  "accepted_count alphabet msk bytes (Suc n)
     = accepted_count alphabet msk bytes n + (if accepted alphabet msk bytes n then 1 else 0)"
  by (simp add: accepted_count_def)

lemma format_batch_count:
  "length idstr < sz \<Longrightarrow>
   (case format_batch alphabet msk sz bytes n idstr of
      Return r \<Rightarrow> sz \<le> length idstr + accepted_count alphabet msk bytes n
    | Exhausted idstr' \<Rightarrow>
        length idstr' = length idstr + accepted_count alphabet msk bytes n \<and> length idstr' < sz)"
proof (induction n arbitrary: idstr)
  case 0
  then show ?case by (simp add: accepted_count_def)
next
  case (Suc n)
  let ?id' = "idstr @ char_at alphabet (unat (byte_at bytes n AND msk))"
  have l: "length ?id' = length idstr + (if accepted alphabet msk bytes n then 1 else 0)"
    by (simp add: length_char_at accepted_def)
  show ?case
  proof (cases "length ?id' = sz")
    case True
    with l show ?thesis by (simp add: Let_def accepted_count_Suc split: if_splits)
  next
    case False
    with Suc.prems l have "length ?id' < sz" by (simp split: if_splits)
    from Suc.IH [OF this] False l show ?thesis
      by (auto simp: Let_def accepted_count_Suc split: batch.splits if_splits)
  qed
qed

lemma format_loop_returns:
  "length idstr < sz \<Longrightarrow> sz \<le> length idstr + accepted_total random alphabet msk step s k \<Longrightarrow>
   \<exists>y. format_loop random alphabet msk step sz idstr s = Some y"
proof (induction k arbitrary: idstr s)
  case 0
  then show ?case by simp
next
  case (Suc k)
  obtain bytes s' where src: "random step s = (bytes, s')" by (cases "random step s")
  note cnt = format_batch_count [OF Suc.prems(1), where alphabet = alphabet and msk = msk
      and bytes = "elements bytes" and n = step]
  show ?case
  proof (cases "format_batch alphabet msk sz (elements bytes) step idstr")
    case (Return r)
    with src show ?thesis by (subst format_loop.simps) simp
  next
    case (Exhausted idstr')
    with cnt have l: "length idstr' = length idstr + accepted_count alphabet msk (elements bytes) step"
      "length idstr' < sz" by simp_all
    with Suc.prems(2) src
    have "sz \<le> length idstr' + accepted_total random alphabet msk step s' k" by simp
    from Suc.IH [OF l(2) this]
    obtain y where "format_loop random alphabet msk step sz idstr' s' = Some y" by blast
    with src Exhausted show ?thesis by (subst format_loop.simps) simp
  qed
qed

lemma format_loop_accepted:
  assumes "format_loop random alphabet msk step sz idstr s = Some y"
  shows "length idstr < sz \<Longrightarrow>
    \<exists>k. sz \<le> length idstr + accepted_total random alphabet msk step s k"
  using assms
proof (induction rule: format_loop_induct)
  case (step loop random alphabet msk step sz idstr s y)
  obtain bytes s' where src: "random step s = (bytes, s')" by (cases "random step s")
  note cnt = format_batch_count [OF step(3), where alphabet = alphabet and msk = msk
      and bytes = "elements bytes" and n = step]
  show ?case
  proof (cases "format_batch alphabet msk sz (elements bytes) step idstr")
    case (Return r)
    with cnt src have "sz \<le> length idstr + accepted_total random alphabet msk step s (Suc 0)"
      by simp
    then show ?thesis ..
  next
    case (Exhausted idstr')
    with cnt have l: "length idstr' = length idstr + accepted_count alphabet msk (elements bytes) step"
      "length idstr' < sz" by simp_all
    from step(2) src Exhausted
    have "loop random alphabet msk step sz idstr' s' = Some y" by simp
    from step(1) [OF this l(2)] obtain k where
      "sz \<le> length idstr' + accepted_total random alphabet msk step s' k" ..
    with l(1) src have "sz \<le> length idstr + accepted_total random alphabet msk step s (Suc k)"
      by simp
    then show ?thesis ..
  qed
qed

lemma format_size_0: "format random s alphabet 0 = None"
proof (cases "format random s alphabet 0")
  case None
  then show ?thesis .
next
  case (Some y)
  then have "alphabet \<noteq> []" by (auto simp: format_def split: if_splits)
  with Some have "format_loop random alphabet (alphabet_mask (length alphabet)) 0 0 [] s = Some y"
    by (simp add: format_def Let_def format_step_0)
  from format_loop_no_step [OF this] show ?thesis by simp
qed

lemma format_sound:
  assumes "format random s alphabet sz = Some (r, s')"
  shows "length r = sz \<and> set r \<subseteq> set alphabet"
proof -
  from assms have ne: "alphabet \<noteq> []" by (auto simp: format_def split: if_splits)
  with assms format_loop_sound [of random alphabet "alphabet_mask (length alphabet)"
      "format_step (unat (alphabet_mask (length alphabet))) sz (length alphabet)" sz "[]" s "(r, s')"]
  show ?thesis by (simp add: format_def Let_def)
qed

lemma format_nonempty:
  "alphabet \<noteq> [] \<Longrightarrow>
   format random s alphabet sz
     = format_loop random alphabet (alphabet_mask (length alphabet))
         (format_step (unat (alphabet_mask (length alphabet))) sz (length alphabet)) sz [] s"
  by (simp add: format_def Let_def)

lemma accepted_by_format_unfold:
  "accepted_by_format random s alphabet sz k
     = accepted_total random alphabet (alphabet_mask (length alphabet))
         (format_step (unat (alphabet_mask (length alphabet))) sz (length alphabet)) s k"
  by (simp add: accepted_by_format_def Let_def)

lemma format_returns_iff:
  fixes alphabet :: "'c list"
  assumes "alphabet \<noteq> []" "1 \<le> sz"
  shows "(\<exists>r s'. format random s alphabet sz = Some (r, s'))
    \<longleftrightarrow> (\<exists>k. sz \<le> accepted_by_format random s alphabet sz k)"
proof
  let ?msk = "alphabet_mask (length alphabet)"
  let ?step = "format_step (unat ?msk) sz (length alphabet)"
  from assms(2) have l: "length ([] :: 'c list) < sz" by simp
  {
    assume "\<exists>r s'. format random s alphabet sz = Some (r, s')"
    then obtain r s' where "format random s alphabet sz = Some (r, s')" by blast
    then have "format_loop random alphabet ?msk ?step sz [] s = Some (r, s')"
      by (simp only: format_nonempty [OF assms(1)])
    from format_loop_accepted [OF this l] obtain k where
      "sz \<le> length ([] :: 'c list) + accepted_total random alphabet ?msk ?step s k" ..
    then have "sz \<le> accepted_by_format random s alphabet sz k"
      by (simp only: accepted_by_format_unfold list.size add_0)
    then show "\<exists>k. sz \<le> accepted_by_format random s alphabet sz k" ..
  }
  {
    assume "\<exists>k. sz \<le> accepted_by_format random s alphabet sz k"
    then obtain k where "sz \<le> accepted_by_format random s alphabet sz k" ..
    then have "sz \<le> length ([] :: 'c list) + accepted_total random alphabet ?msk ?step s k"
      by (simp only: accepted_by_format_unfold list.size add_0)
    from format_loop_returns [OF l this] obtain y where
      "format_loop random alphabet ?msk ?step sz [] s = Some y" ..
    then have "format random s alphabet sz = Some (fst y, snd y)"
      by (simp only: format_nonempty [OF assms(1)] prod.collapse)
    then show "\<exists>r s'. format random s alphabet sz = Some (r, s')" by blast
  }
qed

subsection \<open>Evaluation at concrete inputs\<close>

lemma format_step_1_1_2_b0: "binade (3602879701896397 / 2251799813685248) = 0" by (simp add: binade_def compute_bitlen)
lemma format_step_1_1_2_r0: "round_double (3602879701896397 / 2251799813685248) = 3602879701896397 / 2251799813685248" by (simp add: round_double_def round_pos_def round_even_def format_step_1_1_2_b0 pow2_def Let_def)
lemma format_step_1_1_2_b2: "binade (3602879701896397 / 4503599627370496) = -1" by (simp add: binade_def compute_bitlen)
lemma format_step_1_1_2_r2: "round_double (3602879701896397 / 4503599627370496) = 3602879701896397 / 4503599627370496" by (simp add: round_double_def round_pos_def round_even_def format_step_1_1_2_b2 pow2_def Let_def)
lemma format_step_1_1_2: "format_step 1 1 2 = 1" by (simp add: format_step_def double_1_6_def format_step_1_1_2_r0 format_step_1_1_2_r2)
lemma format_step_1_3_2_b0: "binade (3602879701896397 / 2251799813685248) = 0" by (simp add: binade_def compute_bitlen)
lemma format_step_1_3_2_r0: "round_double (3602879701896397 / 2251799813685248) = 3602879701896397 / 2251799813685248" by (simp add: round_double_def round_pos_def round_even_def format_step_1_3_2_b0 pow2_def Let_def)
lemma format_step_1_3_2_b1: "binade (10808639105689191 / 2251799813685248) = 2" by (simp add: binade_def compute_bitlen)
lemma format_step_1_3_2_r1: "round_double (10808639105689191 / 2251799813685248) = 1351079888211149 / 281474976710656" by (simp add: round_double_def round_pos_def round_even_def format_step_1_3_2_b1 pow2_def Let_def)
lemma format_step_1_3_2_b2: "binade (1351079888211149 / 562949953421312) = 1" by (simp add: binade_def compute_bitlen)
lemma format_step_1_3_2_r2: "round_double (1351079888211149 / 562949953421312) = 1351079888211149 / 562949953421312" by (simp add: round_double_def round_pos_def round_even_def format_step_1_3_2_b2 pow2_def Let_def)
lemma format_step_1_3_2: "format_step 1 3 2 = 3" by (simp add: format_step_def double_1_6_def format_step_1_3_2_r0 format_step_1_3_2_r1 format_step_1_3_2_r2)
lemma format_step_3_1_3_b0: "binade (10808639105689191 / 2251799813685248) = 2" by (simp add: binade_def compute_bitlen)
lemma format_step_3_1_3_r0: "round_double (10808639105689191 / 2251799813685248) = 1351079888211149 / 281474976710656" by (simp add: round_double_def round_pos_def round_even_def format_step_3_1_3_b0 pow2_def Let_def)
lemma format_step_3_1_3_b1: "binade (1351079888211149 / 281474976710656) = 2" by (simp add: binade_def compute_bitlen)
lemma format_step_3_1_3_r1: "round_double (1351079888211149 / 281474976710656) = 1351079888211149 / 281474976710656" by (simp add: round_double_def round_pos_def round_even_def format_step_3_1_3_b1 pow2_def Let_def)
lemma format_step_3_1_3_b2: "binade (1351079888211149 / 844424930131968) = 0" by (simp add: binade_def compute_bitlen)
lemma format_step_3_1_3_r2: "round_double (1351079888211149 / 844424930131968) = 7205759403792795 / 4503599627370496" by (simp add: round_double_def round_pos_def round_even_def format_step_3_1_3_b2 pow2_def Let_def)
lemma format_step_3_1_3: "format_step 3 1 3 = 2" by (simp add: format_step_def double_1_6_def format_step_3_1_3_r0 format_step_3_1_3_r1 format_step_3_1_3_r2)

lemma clz_from_num:
  "clz_from (numeral k) w = (if bit w (pred_numeral k) then 0 else Suc (clz_from (pred_numeral k) w))"
  by (simp add: numeral_eq_Suc)

lemma alphabet_mask_2: "alphabet_mask 2 = 1"
  by (simp add: alphabet_mask_def clz32_def clz_from_num)

lemma alphabet_mask_3: "alphabet_mask 3 = 3"
  by (simp add: alphabet_mask_def clz32_def clz_from_num)

lemma format_batch_num:
  "format_batch alphabet msk sz bytes (numeral k) idstr =
     (let idstr' = idstr @ char_at alphabet (unat (byte_at bytes (pred_numeral k) AND msk))
      in if length idstr' = sz then Return idstr'
         else format_batch alphabet msk sz bytes (pred_numeral k) idstr')"
  by (simp add: numeral_eq_Suc)

lemma format_step_Suc0_3_2: "format_step (Suc 0) 3 2 = 3"
  using format_step_1_3_2 by simp

lemma format_step_Suc0_3_3: "format_step 3 (Suc 0) 3 = 2"
  using format_step_3_1_3 by simp

lemma format_step_Suc0_1_2: "format_step (Suc 0) (Suc 0) 2 = Suc 0"
  using format_step_1_1_2 by simp

lemma length_ab: "length ''ab'' = 2"
  by simp

lemma length_abc: "length ''abc'' = 3"
  by simp

lemma format_ab_3: "format cyclicSource 0 ''ab'' 3 = Some (''aba'', 3)"
  unfolding format_def length_ab alphabet_mask_2 Let_def
  by (subst format_loop.simps)
    (simp add: format_step_Suc0_3_2 cyclicSource_def upt_num format_batch_num
      byte_at_def char_at_def)

lemma format_abc_1: "format cyclicSource 2 ''abc'' 1 = Some (''c'', 4)"
  unfolding format_def length_abc alphabet_mask_3 Let_def
  by (subst format_loop.simps)
    (simp add: format_step_Suc0_3_3 cyclicSource_def upt_num format_batch_num
      byte_at_def char_at_def)

lemma refused_abc_1: "\<not> accepted ''abc'' 3 (elements (fst (cyclicSource 2 2))) 1"
  by (simp add: accepted_def cyclicSource_def upt_num byte_at_def)

lemma accepted_total_empty: "accepted_total random [] msk step s k = 0"
  by (induction k arbitrary: s) (simp_all add: accepted_count_def accepted_def split: prod.splits)

lemma format_returns_iff_accepted:
  assumes "1 \<le> sz"
  shows "(\<exists>r s'. format random s alphabet sz = Some (r, s'))
    \<longleftrightarrow> (\<exists>k. sz \<le> accepted_by_format random s alphabet sz k)"
proof (cases "alphabet = []")
  case True
  with assms show ?thesis
    by (simp add: format_def accepted_by_format_def accepted_total_empty Let_def)
next
  case False
  from format_returns_iff [OF this assms] show ?thesis .
qed

lemma format_batch_rejecting:
  "\<forall>i < n. \<not> accepted alphabet msk bytes i \<Longrightarrow> length idstr \<noteq> sz \<Longrightarrow>
   format_batch alphabet msk sz bytes n idstr = Exhausted idstr"
  by (induction n) (simp_all add: accepted_def char_at_def)

lemma format_loop_rejecting:
  assumes "format_loop random alphabet msk step sz idstr s = Some y"
  shows "\<forall>s. \<forall>i < step. \<not> accepted alphabet msk (elements (fst (random step s))) i \<Longrightarrow>
    length idstr \<noteq> sz \<Longrightarrow> False"
  using assms
proof (induction rule: format_loop_induct)
  case (step loop random alphabet msk step sz idstr s y)
  obtain bytes s' where src: "random step s = (bytes, s')" by (cases "random step s")
  with step(3) have "\<forall>i < step. \<not> accepted alphabet msk (elements bytes) i" by (metis fst_conv)
  from format_batch_rejecting [OF this step(4)] step(2) src
  have "loop random alphabet msk step sz idstr s' = Some y" by simp
  from step(1) [OF this step(3) step(4)] show ?case .
qed

text \<open>
  C2, as the code has it. Whenever \<open>format\<close> returns, the string has exactly \<open>sz\<close>
  characters and each of them is a member of the alphabet: a byte whose masked value is
  not an index of the alphabet adds nothing. For a size of at least 1, \<open>format\<close> returns
  exactly when the batches that the source delivers from the state at hand, each of the
  batch size that \<open>format\<close> computes, hold \<open>sz\<close> accepted bytes between them after
  finitely many batches. Refused bytes do not prevent the return; only a source that
  never delivers \<open>sz\<close> accepted bytes does.
\<close>

theorem format_result:
  "(format random s alphabet sz = Some (r, s') \<longrightarrow> length r = sz \<and> set r \<subseteq> set alphabet)
   \<and> (1 \<le> sz \<longrightarrow>
        ((\<exists>r s'. format random s alphabet sz = Some (r, s'))
          \<longleftrightarrow> (\<exists>k. sz \<le> accepted_by_format random s alphabet sz k)))"
  using format_sound [of random s alphabet sz r s']
    format_returns_iff_accepted [of sz random s alphabet]
  by blast

theorem format_result_witness:
  "format cyclicSource 2 ''abc'' 1 = Some (''c'', 4) \<and> length ''c'' = 1
   \<and> set ''c'' \<subseteq> set ''abc''
   \<and> (1::nat) \<le> 1
   \<and> \<not> accepted ''abc'' 3 (elements (fst (cyclicSource 2 2))) 1
   \<and> (\<exists>r s'. format cyclicSource 2 ''abc'' 1 = Some (r, s'))
   \<and> (\<exists>k. 1 \<le> accepted_by_format cyclicSource 2 ''abc'' 1 k)"
  using format_result [of cyclicSource 2 "''abc''" 1 "''c''" 4] format_abc_1 refused_abc_1
  by simp

text \<open>
  C2, as the claim has it (\<open>format\<close> returns for every byte source), fails: the source of
  255-bytes never yields an index of a three-letter alphabet, since \<open>255 AND 3 = 3\<close>, and
  \<open>format\<close> draws batch after batch without end.
\<close>

theorem format_never_returns:
  "format onesSource 0 ''abc'' 1 = None"
proof (cases "format onesSource 0 ''abc'' 1")
  case None
  then show ?thesis .
next
  case (Some y)
  then have l: "format_loop onesSource ''abc'' 3 2 1 [] 0 = Some y"
    unfolding format_def length_abc alphabet_mask_3 Let_def
    using format_step_3_1_3 by simp
  have "\<forall>s. \<forall>i < 2. \<not> accepted ''abc'' 3 (elements (fst (onesSource 2 s))) i"
    by (simp add: accepted_def onesSource_def byte_at_def)
  from format_loop_rejecting [OF l this] show ?thesis by simp
qed

section \<open>Properties of patterns\<close>

text \<open>
  For a list of sub-alphabets and a length above their number, \<open>pattern\<close> keeps its
  promise: a result has the requested length and a character of every sub-alphabet, and
  there is a result when the source keeps its contract and delivers, from every state,
  enough accepted bytes for each sub-alphabet and for their concatenation.
\<close>

lemma format_each_sound:
  "format_each random ps buf s = Some (r, s') \<Longrightarrow>
   length r = length buf + length ps \<and> set buf \<subseteq> set r \<and> (\<forall>a \<in> set ps. set r \<inter> set a \<noteq> {})"
proof (induction ps arbitrary: buf s)
  case Nil
  then show ?case by simp
next
  case (Cons a ps)
  from Cons.prems obtain c s1 where
    f: "format random s a 1 = Some (c, s1)" and
    e: "format_each random ps (buf @ c) s1 = Some (r, s')"
    by (auto split: option.splits)
  from format_sound [OF f] obtain x where x: "c = [x]" "x \<in> set a"
    by (cases c) auto
  from Cons.IH [OF e] have ih: "length r = length (buf @ c) + length ps"
    "set (buf @ c) \<subseteq> set r" "\<forall>a \<in> set ps. set r \<inter> set a \<noteq> {}"
    by auto
  from ih(2) x have "x \<in> set r \<inter> set a" by auto
  with ih x(1) show ?case by auto
qed

lemma format_each_returns:
  "\<forall>a \<in> set ps. \<forall>s. \<exists>k. 1 \<le> accepted_by_format random s a 1 k \<Longrightarrow>
   \<exists>r s'. format_each random ps buf s = Some (r, s')"
proof (induction ps arbitrary: buf s)
  case Nil
  then show ?case by simp
next
  case (Cons a ps)
  then have "\<exists>k. 1 \<le> accepted_by_format random s a 1 k" by simp
  with format_returns_iff_accepted [of 1 random s a] obtain c s1 where
    "format random s a 1 = Some (c, s1)" by auto
  moreover from Cons.IH [of "buf @ c" s1] Cons.prems
  obtain r s' where "format_each random ps (buf @ c) s1 = Some (r, s')" by auto
  ultimately show ?case by simp
qed

lemma uint32s_exact:
  "exact_source random \<Longrightarrow> \<exists>vs s'. uint32s random n s = Inr (vs, s')"
proof (induction n arbitrary: s)
  case 0
  then show ?case by simp
next
  case (Suc n)
  from uint32_exact [OF Suc.prems, of s] obtain v s1 where "uint32 random s = Inr (v, s1)"
    by blast
  moreover from Suc.IH [OF Suc.prems, of s1] obtain vs s' where
    "uint32s random n s1 = Inr (vs, s')" by blast
  ultimately show ?case by simp
qed

lemma shuffled_chars:
  "set (map (\<lambda>i. chars ! i) (sort_key f [0..<length chars])) = set chars"
  "length (map (\<lambda>i. chars ! i) (sort_key f [0..<length chars])) = length chars"
proof -
  have "set (map (\<lambda>i. chars ! i) (sort_key f [0..<length chars]))
      = (\<lambda>i. chars ! i) ` {0..<length chars}"
    by simp
  also have "\<dots> = set chars"
    by (auto simp: set_conv_nth)
  finally show "set (map (\<lambda>i. chars ! i) (sort_key f [0..<length chars])) = set chars" .
  show "length (map (\<lambda>i. chars ! i) (sort_key f [0..<length chars])) = length chars"
    by simp
qed

lemma pattern_multi_cases:
  assumes "pattern random s len (Multi ps) = Some (Inr (r, s'))" "length ps \<le> len"
  obtains buf s1 rest s2 randoms where
    "format_each random ps [] s = Some (buf, s1)"
    "format random s1 (concat ps) (len - length ps) = Some (rest, s2)"
    "uint32s random (length (buf @ rest)) s2 = Inr (randoms, s')"
    "r = map (\<lambda>i. (buf @ rest) ! i)
             (sort_key (\<lambda>a. randoms ! a) [0..<length (buf @ rest)])"
proof -
  from assms(2) have nl: "\<not> len < length ps" by simp
  show thesis
  proof (cases "format_each random ps [] s")
    case None
    with assms(1) nl show thesis by simp
  next
    case (Some bs)
    obtain buf s1 where bs: "bs = (buf, s1)" by (cases bs)
    show thesis
    proof (cases "format random s1 (concat ps) (len - length ps)")
      case None
      with assms(1) nl Some bs show thesis by simp
    next
      case f: (Some rs)
      obtain rest s2 where rs: "rs = (rest, s2)" by (cases rs)
      show thesis
      proof (cases "uint32s random (length (buf @ rest)) s2")
        case (Inl e)
        with assms(1) nl Some bs f rs show thesis by (simp add: Let_def)
      next
        case (Inr vs)
        obtain randoms s3 where vs: "vs = (randoms, s3)" by (cases vs)
        from assms(1) nl Some bs f rs Inr vs
        have "s3 = s'" "r = map (\<lambda>i. (buf @ rest) ! i)
             (sort_key (\<lambda>a. randoms ! a) [0..<length (buf @ rest)])"
          by (simp_all add: Let_def)
        with that [of buf s1 rest s2 randoms] Some bs f rs Inr vs show thesis by simp
      qed
    qed
  qed
qed

lemma pattern_multi_sound:
  assumes "pattern random s len (Multi ps) = Some (Inr (r, s'))" "length ps \<le> len"
  shows "length r = len \<and> (\<forall>a \<in> set ps. set r \<inter> set a \<noteq> {})"
proof -
  from assms obtain buf s1 rest s2 and randoms :: "nat list" where
    e: "format_each random ps [] s = Some (buf, s1)" and
    f: "format random s1 (concat ps) (len - length ps) = Some (rest, s2)" and
    r: "r = map (\<lambda>i. (buf @ rest) ! i)
             (sort_key (\<lambda>a. randoms ! a) [0..<length (buf @ rest)])"
    by (rule pattern_multi_cases) blast
  from format_each_sound [OF e] have b: "length buf = length ps"
    "\<forall>a \<in> set ps. set buf \<inter> set a \<noteq> {}" by auto
  from format_sound [OF f] have "length rest = len - length ps" by simp
  with b(1) assms(2) have l: "length (buf @ rest) = len" by simp
  from b(2) have m: "\<forall>a \<in> set ps. set (buf @ rest) \<inter> set a \<noteq> {}" by auto
  have "length r = length (buf @ rest)" "set r = set (buf @ rest)"
    unfolding r by (rule shuffled_chars)+
  with l m show ?thesis by simp
qed

lemma pattern_multi_returns:
  assumes "exact_source random"
    "\<forall>a \<in> set ps. \<forall>s. \<exists>k. 1 \<le> accepted_by_format random s a 1 k"
    "\<forall>s. \<exists>k. len - length ps \<le> accepted_by_format random s (concat ps) (len - length ps) k"
    "length ps < len"
  shows "\<exists>r s'. pattern random s len (Multi ps) = Some (Inr (r, s'))"
proof -
  from format_each_returns [OF assms(2), of "[]" s] obtain buf s1 where
    e: "format_each random ps [] s = Some (buf, s1)" by blast
  from assms(4) have "1 \<le> len - length ps" by simp
  from format_returns_iff_accepted [OF this, of random s1 "concat ps"] assms(3)
  obtain rest s2 where
    f: "format random s1 (concat ps) (len - length ps) = Some (rest, s2)" by blast
  from uint32s_exact [OF assms(1), of "length (buf @ rest)" s2] obtain randoms s3 where
    u: "uint32s random (length (buf @ rest)) s2 = Inr (randoms, s3)" by blast
  from e f u assms(4) show ?thesis by (simp add: Let_def)
qed

text \<open>
  C3 at its boundary. With as many characters requested as there are sub-alphabets the
  code takes the branch that draws one character per sub-alphabet and then asks \<open>format\<close>
  for the remaining 0 characters, a call that never returns: \<open>pattern\<close> returns nothing,
  whatever the source and the sub-alphabets.
\<close>

theorem pattern_size_n_never_returns:
  "pattern random s (length ps) (Multi ps) = None"
proof (cases "format_each random ps [] s")
  case None
  then show ?thesis by simp
next
  case (Some bs)
  obtain buf s1 where "bs = (buf, s1)" by (cases bs)
  with Some show ?thesis by (simp add: format_size_0)
qed

section \<open>Properties of unique patterns\<close>

lemma format_ab_1_at_0: "format cyclicSource 0 ''ab'' 1 = Some (''a'', 1)"
  unfolding format_def length_ab alphabet_mask_2 Let_def
  by (subst format_loop.simps)
    (simp add: format_step_Suc0_1_2 cyclicSource_def byte_at_def char_at_def)

lemma format_ab_1_at_1: "format cyclicSource 1 ''ab'' 1 = Some (''b'', 2)"
  unfolding format_def length_ab alphabet_mask_2 Let_def
  by (subst format_loop.simps)
    (simp add: format_step_Suc0_1_2 cyclicSource_def byte_at_def char_at_def)

lemma format_ab_1_at_2: "format cyclicSource 2 ''ab'' 1 = Some (''a'', 3)"
  unfolding format_def length_ab alphabet_mask_2 Let_def
  by (subst format_loop.simps)
    (simp add: format_step_Suc0_1_2 cyclicSource_def byte_at_def char_at_def)

text \<open>
  C1 on the code. With \<^verbatim>\<open>existingPatterns\<close> given, the pattern that is checked against
  them is not the one that is added: a second pattern is drawn and added unchecked. On the
  cyclic source with alphabet \<open>ab\<close>, length 1 and \<open>a\<close> excluded, the draws are \<open>a\<close>
  (excluded, retried), \<open>b\<close> (passes the check) and \<open>a\<close> (added): the result is the
  excluded string.
\<close>

theorem uniquePatterns_returns_excluded:
  "uniquePatterns cyclicSource 0 1 1 (Single ''ab'') (Some [''a'']) = Some (Inr ([''a''], 3))"
proof -
  have p0: "pattern cyclicSource 0 1 (Single ''ab'') = Some (Inr (''a'', 1))"
    using format_ab_1_at_0 by simp
  have p1: "pattern cyclicSource 1 1 (Single ''ab'') = Some (Inr (''b'', 2))"
    using format_ab_1_at_1 by simp
  have p2: "pattern cyclicSource 2 1 (Single ''ab'') = Some (Inr (''a'', 3))"
    using format_ab_1_at_2 by simp
  have "unique_excluding cyclicSource 1 1 (Single ''ab'') [''a''] [] 0
      = unique_excluding cyclicSource 1 1 (Single ''ab'') [''a''] [] 1"
    using p0 by (subst unique_excluding.simps) simp
  also have "\<dots> = unique_excluding cyclicSource 1 1 (Single ''ab'') [''a''] [''a''] 3"
    using p1 p2 by (subst unique_excluding.simps) (simp add: set_add_def)
  also have "\<dots> = Some (Inr ([''a''], 3))"
    by (subst unique_excluding.simps) simp
  finally show ?thesis by (simp add: uniquePatterns_def)
qed

section \<open>Properties of the batching adapter\<close>

lemma batch_state_Suc:
  "batch_state source batchSize s (Suc k) = snd (source batchSize (batch_state source batchSize s k))"
  by (simp add: batch_state_def)

lemma drawn_Suc:
  "drawn source batchSize s (Suc k)
     = drawn source batchSize s k
         @ elements (fst (source batchSize (batch_state source batchSize s k)))"
  by (simp add: drawn_def)

lemma drawn_0: "drawn source batchSize s 0 = []"
  by (simp add: drawn_def)

lemma batched_loop_correct:
  assumes bs: "1 \<le> batchSize"
    and ex: "\<And>s. length (elements (fst (source batchSize s))) = batchSize"
  shows "length result = len \<Longrightarrow> pos \<le> len \<Longrightarrow>
    batched_inv source batchSize s0 (E0 @ take pos result) (elements buf) off s k \<Longrightarrow>
    \<exists>out buf' off' s' k'.
      batched_loop source batchSize len result pos buf off s
        = Some (out, \<lparr>buffer = Some buf', offset = off', base = s'\<rparr>)
      \<and> length out = len
      \<and> batched_inv source batchSize s0 (E0 @ out) (elements buf') off' s' k'"
proof (induction "len - pos" arbitrary: result pos buf off s k rule: less_induct)
  case less
  note inv = less.prems(3) [unfolded batched_inv_def]
  show ?case
  proof (cases "pos < len")
    case False
    with less.prems(1,2) have "take pos result = result" by simp
    with less.prems(1,3) False show ?thesis
      by (subst batched_loop.simps) auto
  next
    case True
    define sz where "sz = min (len - pos) (batchSize - off)"
    define chunk where "chunk = subarray (elements buf) off (off + sz)"
    define result' where "result' = set_at result chunk pos"
    from inv have off: "off < batchSize" by simp
    with True have sz: "0 < sz" "pos + sz \<le> len" "off + sz \<le> batchSize"
      unfolding sz_def by linarith+
    from inv sz have lc: "length chunk = sz"
      by (simp add: chunk_def subarray_def)
    with sz less.prems(1) have lr: "length result' = len"
      by (simp add: result'_def set_at_def)
    from lc sz less.prems(1) have tk: "take (pos + sz) result' = take pos result @ chunk"
      by (simp add: result'_def set_at_def)
    have dr: "drop off (elements buf) = chunk @ drop (off + sz) (elements buf)"
      unfolding chunk_def subarray_def
      by (simp add: add.commute [of off sz] drop_drop [symmetric] del: drop_drop)
    from inv dr have E: "(E0 @ take (pos + sz) result') @ drop (off + sz) (elements buf)
        = drawn source batchSize s0 k"
      by (simp add: tk)
    from sz True have dec: "len - (pos + sz) < len - pos" by simp
    show ?thesis
    proof (cases "off + sz = batchSize")
      case False
      with sz E inv have "batched_inv source batchSize s0 (E0 @ take (pos + sz) result')
          (elements buf) (off + sz) s k"
        by (simp add: batched_inv_def)
      from less.hyps [OF dec lr sz(2) this]
      obtain out buf' off' s' k' where
        "batched_loop source batchSize len result' (pos + sz) buf (off + sz) s
           = Some (out, \<lparr>buffer = Some buf', offset = off', base = s'\<rparr>)"
        "length out = len" "batched_inv source batchSize s0 (E0 @ out) (elements buf') off' s' k'"
        by blast
      moreover have "batched_loop source batchSize len result pos buf off s
          = batched_loop source batchSize len result' (pos + sz) buf (off + sz) s"
        using True False
        by (subst batched_loop.simps)
          (simp add: Let_def sz_def [symmetric] chunk_def [symmetric] result'_def [symmetric])
      ultimately show ?thesis by auto
    next
      case full: True
      obtain buf2 s2 where src: "source batchSize s = (buf2, s2)" by (cases "source batchSize s")
      from ex [of s] src have l2: "length (elements buf2) = batchSize" by simp
      from full inv E have "E0 @ take (pos + sz) result' = drawn source batchSize s0 k"
        by simp
      with src inv have "(E0 @ take (pos + sz) result') @ drop 0 (elements buf2)
          = drawn source batchSize s0 (Suc k)"
        by (simp add: drawn_Suc)
      moreover from src inv have "s2 = batch_state source batchSize s0 (Suc k)"
        by (simp add: batch_state_Suc)
      ultimately have "batched_inv source batchSize s0 (E0 @ take (pos + sz) result')
          (elements buf2) 0 s2 (Suc k)"
        using l2 bs by (simp add: batched_inv_def)
      from less.hyps [OF dec lr sz(2) this]
      obtain out buf' off' s' k' where
        "batched_loop source batchSize len result' (pos + sz) buf2 0 s2
           = Some (out, \<lparr>buffer = Some buf', offset = off', base = s'\<rparr>)"
        "length out = len" "batched_inv source batchSize s0 (E0 @ out) (elements buf') off' s' k'"
        by blast
      moreover have "batched_loop source batchSize len result pos buf off s
          = batched_loop source batchSize len result' (pos + sz) buf2 0 s2"
        using True full src
        by (subst batched_loop.simps)
          (simp add: Let_def sz_def [symmetric] chunk_def result'_def)
      ultimately show ?thesis by auto
    qed
  qed
qed

lemma batchedRandomSource_correct:
  assumes bs: "1 \<le> batchSize"
    and ex: "\<And>s. length (elements (fst (source batchSize s))) = batchSize"
    and inv: "adapter_inv source batchSize s0 E st"
  shows "\<exists>out st'. batchedRandomSource source batchSize len st = Some (out, st')
      \<and> length out = len \<and> adapter_inv source batchSize s0 (E @ out) st'"
proof -
  obtain buf s where pick: "(case buffer st of
              None \<Rightarrow> source batchSize (base st)
            | Some buf \<Rightarrow> (buf, base st)) = (buf, s)"
    by (cases "case buffer st of None \<Rightarrow> source batchSize (base st) | Some buf \<Rightarrow> (buf, base st)")
  have "\<exists>k. batched_inv source batchSize s0 (E @ take 0 (replicate len 0)) (elements buf)
      (offset st) s k"
  proof (cases "buffer st")
    case None
    with inv have st: "offset st = 0" "base st = s0" "E = []"
      by (simp_all add: adapter_inv_def)
    from None pick st have src: "source batchSize s0 = (buf, s)" by simp
    with ex [of s0] bs st have "batched_inv source batchSize s0 [] (elements buf) 0 s 1"
      by (simp add: batched_inv_def batch_state_def drawn_def)
    with st show ?thesis by auto
  next
    case (Some b)
    with inv pick show ?thesis by (auto simp: adapter_inv_def)
  qed
  then obtain k where
    "batched_inv source batchSize s0 (E @ take 0 (replicate len 0)) (elements buf) (offset st) s k" ..
  from batched_loop_correct [OF bs ex _ _ this, of len]
  obtain out buf' off' s' k' where
    "batched_loop source batchSize len (replicate len 0) 0 buf (offset st) s
        = Some (out, \<lparr>buffer = Some buf', offset = off', base = s'\<rparr>)"
    "length out = len" "batched_inv source batchSize s0 (E @ out) (elements buf') off' s' k'"
    by auto
  with pick show ?thesis
    by (auto simp: batchedRandomSource_def adapter_inv_def)
qed

lemma batched_calls_correct:
  assumes bs: "1 \<le> batchSize"
    and ex: "\<And>s. length (elements (fst (source batchSize s))) = batchSize"
  shows "adapter_inv source batchSize s0 E st \<Longrightarrow>
    \<exists>outs st'. batched_calls source batchSize lens st = Some (outs, st')
      \<and> map length outs = lens \<and> adapter_inv source batchSize s0 (E @ concat outs) st'"
proof (induction lens arbitrary: E st)
  case Nil
  then show ?case by simp
next
  case (Cons len lens)
  from batchedRandomSource_correct [OF bs ex Cons.prems, of len]
  obtain out st1 where c: "batchedRandomSource source batchSize len st = Some (out, st1)"
    "length out = len" "adapter_inv source batchSize s0 (E @ out) st1"
    by blast
  from Cons.IH [OF c(3)] obtain outs st' where
    r: "batched_calls source batchSize lens st1 = Some (outs, st')"
    "map length outs = lens" "adapter_inv source batchSize s0 ((E @ out) @ concat outs) st'"
    by blast
  from c r show ?case by simp
qed

text \<open>
  C8. Around a source that keeps its contract, with a batch size of at least 1, every call
  of the adapter returns, with exactly the requested number of bytes, and the bytes of all
  calls in a row are a prefix of the batches drawn from the wrapped source, in order,
  however the requests fall on the batch boundaries.
\<close>

theorem batched_preserves_order:
  assumes "1 \<le> batchSize" "exact_source source"
  shows "\<exists>outs st k.
      batched_calls source batchSize lens (batched_init s0) = Some (outs, st)
      \<and> map length outs = lens
      \<and> prefix (concat outs) (drawn source batchSize s0 k)
      \<and> base st = batch_state source batchSize s0 k"
proof -
  from assms(2) have ex: "\<And>s. length (elements (fst (source batchSize s))) = batchSize"
    by (simp add: exact_source_def)
  have "adapter_inv source batchSize s0 [] (batched_init s0)"
    by (simp add: adapter_inv_def batched_init_def)
  from batched_calls_correct [OF assms(1) ex this, of lens]
  obtain outs st where r: "batched_calls source batchSize lens (batched_init s0) = Some (outs, st)"
    "map length outs = lens" "adapter_inv source batchSize s0 (concat outs) st"
    by auto
  have "\<exists>k. prefix (concat outs) (drawn source batchSize s0 k)
      \<and> base st = batch_state source batchSize s0 k"
  proof (cases "buffer st")
    case None
    with r(3) have e: "concat outs = []" and b: "base st = s0"
      by (simp_all add: adapter_inv_def)
    from e have "prefix (concat outs) (drawn source batchSize s0 0)"
      by (simp only: Nil_prefix)
    with b have "prefix (concat outs) (drawn source batchSize s0 0)
      \<and> base st = batch_state source batchSize s0 0"
      by (simp add: batch_state_def)
    then show ?thesis ..
  next
    case (Some buf)
    with r(3) obtain k where
      "batched_inv source batchSize s0 (concat outs) (elements buf) (offset st) (base st) k"
      by (auto simp: adapter_inv_def)
    then have "concat outs @ drop (offset st) (elements buf) = drawn source batchSize s0 k"
      "base st = batch_state source batchSize s0 k"
      by (simp_all add: batched_inv_def)
    then have "prefix (concat outs) (drawn source batchSize s0 k)
      \<and> base st = batch_state source batchSize s0 k"
      by (metis prefixI)
    then show ?thesis ..
  qed
  with r(1,2) show ?thesis by blast
qed

theorem batched_preserves_order_witness:
  "(1::nat) \<le> 4 \<and> exact_source cyclicSource
   \<and> (\<exists>outs st k.
      batched_calls cyclicSource 4 [3, 6, 1] (batched_init 0) = Some (outs, st)
      \<and> map length outs = [3, 6, 1]
      \<and> prefix (concat outs) (drawn cyclicSource 4 0 k)
      \<and> base st = batch_state cyclicSource 4 0 k)"
  using batched_preserves_order [of 4 cyclicSource "[3, 6, 1]" 0] exact_cyclicSource
  by simp

section \<open>Determinism\<close>

lemma same_bytesD:
  assumes "same_bytes R src1 src2" "R s t"
  obtains b s' t' where "src1 n s = (b, s')" "src2 n t = (b, t')" "R s' t'"
proof -
  obtain b s' where a: "src1 n s = (b, s')" by (cases "src1 n s")
  obtain b' t' where b: "src2 n t = (b', t')" by (cases "src2 n t")
  from assms have "fst (src1 n s) = fst (src2 n t)" "R (snd (src1 n s)) (snd (src2 n t))"
    by (simp_all add: same_bytes_def)
  with a b have "b' = b" "R s' t'" by simp_all
  with a b that show thesis by simp
qed

lemma same_bytes_conv: "same_bytes R src1 src2 \<Longrightarrow> same_bytes (\<lambda>t s. R s t) src2 src1"
  by (simp add: same_bytes_def)

lemma same_bytes_refl: "same_bytes (=) src src"
  by (simp add: same_bytes_def)

lemma same_result_cases [consumes 1, case_names Inl Inr]:
  assumes "same_result R x y"
  obtains (Inl) e where "x = Inl e" "y = Inl e"
  | (Inr) v s' t' where "x = Inr (v, s')" "y = Inr (v, t')" "R s' t'"
  using assms by (auto elim!: rel_sum.cases)

lemma same_option_cases [consumes 1, case_names None Some]:
  assumes "rel_option (rel_prod (=) R) x y"
  obtains (None) "x = None" "y = None"
  | (Some) v s' t' where "x = Some (v, s')" "y = Some (v, t')" "R s' t'"
  using assms by (cases x; cases y) auto

lemma uint_same:
  assumes "same_bytes R src1 src2" "R s t"
  shows "same_result R (uint8 src1 s) (uint8 src2 t)"
    "same_result R (uint16 src1 s) (uint16 src2 t)"
    "same_result R (uint32 src1 s) (uint32 src2 t)"
    "same_result R (uint64 src1 s) (uint64 src2 t)"
proof -
  show "same_result R (uint8 src1 s) (uint8 src2 t)"
    by (rule same_bytesD [OF assms, of 1])
      (simp add: uint8_def split: sum.splits)
  show "same_result R (uint16 src1 s) (uint16 src2 t)"
    by (rule same_bytesD [OF assms, of 2])
      (simp add: uint16_def split: sum.splits)
  show "same_result R (uint32 src1 s) (uint32 src2 t)"
    by (rule same_bytesD [OF assms, of 4])
      (simp add: uint32_def split: sum.splits)
  show "same_result R (uint64 src1 s) (uint64 src2 t)"
    by (rule same_bytesD [OF assms, of 8])
      (simp add: uint64_def split: sum.splits)
qed

lemma rejectionLoop_same:
  "same_bytes R src1 src2 \<Longrightarrow> R s t \<Longrightarrow>
   same_result R (rejectionLoop src1 rng i s) (rejectionLoop src2 rng i t)"
proof (induction src1 rng i s arbitrary: t rule: rejectionLoop.induct)
  case (1 src1 rng i s)
  from uint_same(3) [OF "1.prems"]
  have u: "same_result R (uint32 src1 s) (uint32 src2 t)" .
  show ?case
  proof (cases "uint32 src1 s")
    case (Inl e)
    with u show ?thesis
      by (subst rejectionLoop.simps, subst (2) rejectionLoop.simps)
        (auto elim!: rel_sum.cases)
  next
    case (Inr p)
    obtain v s' where p: "p = (v, s')" by (cases p)
    with u Inr obtain t' where u2: "uint32 src2 t = Inr (v, t')" and R: "R s' t'"
      by (auto elim!: rel_sum.cases)
    show ?thesis
    proof (cases "\<not> i \<ge> maxIntegerIter \<and> \<not> below_limit (int v) rng")
      case True
      with "1.IH" [OF Inr p [symmetric] _ _ "1.prems"(1) R]
      have "same_result R (rejectionLoop src1 rng (Suc i) s') (rejectionLoop src2 rng (Suc i) t')"
        by simp
      with True Inr p u2 show ?thesis
        by (subst rejectionLoop.simps, subst (2) rejectionLoop.simps) simp
    next
      case False
      with Inr p u2 R show ?thesis
        by (subst rejectionLoop.simps, subst (2) rejectionLoop.simps) auto
    qed
  qed
qed

lemma integerLessThan_same:
  assumes "same_bytes R src1 src2" "R s t"
  shows "same_result R (integerLessThan src1 s rng) (integerLessThan src2 t rng)"
  using rejectionLoop_same [OF assms, of "\<lceil>rng\<rceil>" 0]
  by (auto simp: integerLessThan_def rejectionSampling_def elim!: rel_sum.cases)

lemma integer_same:
  assumes "same_bytes R src1 src2" "R s t"
  shows "same_result R (integer src1 s mn mx) (integer src2 t mn mx)"
  using integerLessThan_same [OF assms,
      of "double_add (double_sub (of_int \<lfloor>mx\<rfloor>) (of_int \<lceil>mn\<rceil>)) 1"] assms(2)
  by (auto simp: integer_def Let_def elim!: rel_sum.cases)


lemma rel_option_both:
  assumes "\<And>a. x = Some a \<Longrightarrow> \<exists>b. y = Some b \<and> P a b"
    and "\<And>b. y = Some b \<Longrightarrow> x \<noteq> None"
  shows "rel_option P x y"
proof (cases x)
  case None
  with assms(2) have "y = None" by (cases y) auto
  with None show ?thesis by simp
next
  case (Some a)
  with assms(1) obtain b where "y = Some b" "P a b" by blast
  with Some show ?thesis by simp
qed

lemma format_loop_same_fwd:
  assumes "format_loop src1 alphabet msk step sz idstr s = Some y"
  shows "same_bytes R src1 src2 \<Longrightarrow> R s t \<Longrightarrow>
    \<exists>t'. format_loop src2 alphabet msk step sz idstr t = Some (fst y, t') \<and> R (snd y) t'"
  using assms
proof (induction arbitrary: t rule: format_loop_induct)
  case (step loop random alphabet msk step sz idstr s y)
  from step(3,4) obtain b s' t' where
    src: "random step s = (b, s')" "src2 step t = (b, t')" "R s' t'"
    by (rule same_bytesD)
  show ?case
  proof (cases "format_batch alphabet msk sz (elements b) step idstr")
    case (Return r)
    with step(2) src(1) have "y = (r, s')" by simp
    moreover from Return src(2)
    have "format_loop src2 alphabet msk step sz idstr t = Some (r, t')"
      by (subst format_loop.simps) simp
    ultimately show ?thesis using src(3) by simp
  next
    case (Exhausted idstr')
    with step(2) src(1) have "loop random alphabet msk step sz idstr' s' = Some y" by simp
    from step(1) [OF this step(3) src(3)] obtain t'' where
      "format_loop src2 alphabet msk step sz idstr' t' = Some (fst y, t'')" "R (snd y) t''"
      by blast
    moreover from Exhausted src(2)
    have "format_loop src2 alphabet msk step sz idstr t
        = format_loop src2 alphabet msk step sz idstr' t'"
      by (subst format_loop.simps) simp
    ultimately show ?thesis by auto
  qed
qed

lemma format_loop_same:
  assumes "same_bytes R src1 src2" "R s t"
  shows "rel_option (rel_prod (=) R)
    (format_loop src1 alphabet msk step sz idstr s) (format_loop src2 alphabet msk step sz idstr t)"
proof (rule rel_option_both)
  fix a assume "format_loop src1 alphabet msk step sz idstr s = Some a"
  from format_loop_same_fwd [OF this assms] obtain t' where
    "format_loop src2 alphabet msk step sz idstr t = Some (fst a, t')" "R (snd a) t'" by blast
  then show "\<exists>b. format_loop src2 alphabet msk step sz idstr t = Some b \<and> rel_prod (=) R a b"
    by (cases a) auto
next
  fix b assume "format_loop src2 alphabet msk step sz idstr t = Some b"
  from format_loop_same_fwd [OF this same_bytes_conv [OF assms(1)], of s] assms(2)
  show "format_loop src1 alphabet msk step sz idstr s \<noteq> None" by auto
qed

lemma format_same:
  assumes "same_bytes R src1 src2" "R s t"
  shows "rel_option (rel_prod (=) R) (format src1 s alphabet sz) (format src2 t alphabet sz)"
  by (simp add: format_def Let_def format_loop_same [OF assms])

lemma format_each_same:
  "same_bytes R src1 src2 \<Longrightarrow> R s t \<Longrightarrow>
   rel_option (rel_prod (=) R) (format_each src1 ps buf s) (format_each src2 ps buf t)"
proof (induction ps arbitrary: buf s t)
  case Nil
  then show ?case by simp
next
  case (Cons a ps)
  from format_same [OF Cons.prems, of a 1]
  show ?case
  proof (cases rule: same_option_cases)
    case None
    then show ?thesis by simp
  next
    case (Some c s' t')
    from Cons.IH [OF Cons.prems(1) Some(3), of "buf @ c"] Some(1,2) show ?thesis by simp
  qed
qed

lemma uint32s_same:
  "same_bytes R src1 src2 \<Longrightarrow> R s t \<Longrightarrow>
   same_result R (uint32s src1 n s) (uint32s src2 n t)"
proof (induction n arbitrary: s t)
  case 0
  then show ?case by simp
next
  case (Suc n)
  from uint_same(3) [OF Suc.prems]
  show ?case
  proof (cases rule: same_result_cases)
    case (Inl e)
    then show ?thesis by simp
  next
    case (Inr v s' t')
    from Suc.IH [OF Suc.prems(1) Inr(3)]
    show ?thesis
    proof (cases rule: same_result_cases)
      case Inl
      with Inr(1,2) show ?thesis by simp
    next
      case r: (Inr vs s'' t'')
      with Inr(1,2) show ?thesis by simp
    qed
  qed
qed

lemma map_Inr_same:
  "rel_option (rel_prod (=) R) x y \<Longrightarrow> same_outcome R (map_option Inr x) (map_option Inr y)"
  by (cases x; cases y) auto

lemma pattern_same:
  assumes sb: "same_bytes R src1 src2" and R: "R s t"
  shows "same_outcome R (pattern src1 s len patterns) (pattern src2 t len patterns)"
proof (cases patterns)
  case (Single a)
  with format_same [OF assms, of a len] show ?thesis by (simp add: map_Inr_same)
next
  case (Multi ps)
  show ?thesis
  proof (cases "len < length ps")
    case True
    with Multi format_same [OF assms, of "concat ps" len] show ?thesis
      by (simp add: map_Inr_same)
  next
    case False
    from format_each_same [OF assms, of ps "[]"]
    show ?thesis
    proof (cases rule: same_option_cases)
      case None
      with Multi False show ?thesis by simp
    next
      case (Some buf s1 t1)
      from format_same [OF sb Some(3), of "concat ps" "len - length ps"]
      show ?thesis
      proof (cases rule: same_option_cases)
        case None
        with Multi False Some(1,2) show ?thesis by simp
      next
        case f: (Some rest s2 t2)
        from uint32s_same [OF sb f(3), of "length (buf @ rest)"]
        show ?thesis
        proof (cases rule: same_result_cases)
          case (Inl e)
          with Multi False Some(1,2) f(1,2) show ?thesis by (simp add: Let_def)
        next
          case (Inr randoms s3 t3)
          with Multi False Some(1,2) f(1,2) show ?thesis by (simp add: Let_def)
        qed
      qed
    qed
  qed
qed


lemma same_outcome_cases [consumes 1, case_names None Error Value]:
  assumes "same_outcome R x y"
  obtains (None) "x = None" "y = None"
  | (Error) e where "x = Some (Inl e)" "y = Some (Inl e)"
  | (Value) v s' t' where "x = Some (Inr (v, s'))" "y = Some (Inr (v, t'))" "R s' t'"
  using assms by (cases x; cases y) (auto elim!: rel_sum.cases)

lemmas unique_excluding_induct =
  unique_excluding.raw_induct [rotated 1, consumes 1, case_names step]

lemmas unique_plain_induct =
  unique_plain.raw_induct [rotated 1, consumes 1, case_names step]

lemma unique_excluding_same_fwd:
  assumes "unique_excluding src1 cnt len patterns existing m s = Some res"
  shows "same_bytes R src1 src2 \<Longrightarrow> R s t \<Longrightarrow>
    \<exists>res'. unique_excluding src2 cnt len patterns existing m t = Some res'
      \<and> same_result R res res'"
  using assms
proof (induction arbitrary: t rule: unique_excluding_induct)
  case (step loop random cnt len patterns existing m s res)
  note sb = step(3) and R = step(4)
  show ?case
  proof (cases "length m < cnt")
    case False
    with step(2) have "res = Inr (m, s)" by simp
    moreover from False have "unique_excluding src2 cnt len patterns existing m t = Some (Inr (m, t))"
      by (subst unique_excluding.simps) simp
    ultimately show ?thesis using R by simp
  next
    case True
    from pattern_same [OF sb R, of len patterns]
    show ?thesis
    proof (cases rule: same_outcome_cases)
      case None
      with step(2) True show ?thesis by simp
    next
      case (Error e)
      with step(2) True have "res = Inl e" by simp
      moreover from Error True
      have "unique_excluding src2 cnt len patterns existing m t = Some (Inl e)"
        by (subst unique_excluding.simps) simp
      ultimately show ?thesis by simp
    next
      case (Value p s1 t1)
      show ?thesis
      proof (cases "p \<in> set existing")
        case ex: True
        with step(2) True Value(1)
        have "loop random cnt len patterns existing m s1 = Some res" by simp
        from step(1) [OF this sb Value(3)] obtain res' where
          "unique_excluding src2 cnt len patterns existing m t1 = Some res'"
          "same_result R res res'" by blast
        moreover from True ex Value(2)
        have "unique_excluding src2 cnt len patterns existing m t
            = unique_excluding src2 cnt len patterns existing m t1"
          by (subst unique_excluding.simps) simp
        ultimately show ?thesis by auto
      next
        case nex: False
        from pattern_same [OF sb Value(3), of len patterns]
        show ?thesis
        proof (cases rule: same_outcome_cases)
          case None
          with step(2) True Value(1) nex show ?thesis by simp
        next
          case (Error e)
          with step(2) True Value(1) nex have "res = Inl e" by simp
          moreover from Error True Value(2) nex
          have "unique_excluding src2 cnt len patterns existing m t = Some (Inl e)"
            by (subst unique_excluding.simps) simp
          ultimately show ?thesis by simp
        next
          case v2: (Value p' s2 t2)
          with step(2) True Value(1) nex
          have "loop random cnt len patterns existing (set_add p' m) s2 = Some res" by simp
          from step(1) [OF this sb v2(3)] obtain res' where
            "unique_excluding src2 cnt len patterns existing (set_add p' m) t2 = Some res'"
            "same_result R res res'" by blast
          moreover from True nex Value(2) v2(2)
          have "unique_excluding src2 cnt len patterns existing m t
              = unique_excluding src2 cnt len patterns existing (set_add p' m) t2"
            by (subst unique_excluding.simps) simp
          ultimately show ?thesis by auto
        qed
      qed
    qed
  qed
qed

lemma unique_plain_same_fwd:
  assumes "unique_plain src1 cnt len patterns m s = Some res"
  shows "same_bytes R src1 src2 \<Longrightarrow> R s t \<Longrightarrow>
    \<exists>res'. unique_plain src2 cnt len patterns m t = Some res' \<and> same_result R res res'"
  using assms
proof (induction arbitrary: t rule: unique_plain_induct)
  case (step loop random cnt len patterns m s res)
  note sb = step(3) and R = step(4)
  show ?case
  proof (cases "length m < cnt")
    case False
    with step(2) have "res = Inr (m, s)" by simp
    moreover from False have "unique_plain src2 cnt len patterns m t = Some (Inr (m, t))"
      by (subst unique_plain.simps) simp
    ultimately show ?thesis using R by simp
  next
    case True
    from pattern_same [OF sb R, of len patterns]
    show ?thesis
    proof (cases rule: same_outcome_cases)
      case None
      with step(2) True show ?thesis by simp
    next
      case (Error e)
      with step(2) True have "res = Inl e" by simp
      moreover from Error True
      have "unique_plain src2 cnt len patterns m t = Some (Inl e)"
        by (subst unique_plain.simps) simp
      ultimately show ?thesis by simp
    next
      case (Value p s1 t1)
      with step(2) True
      have "loop random cnt len patterns (set_add p m) s1 = Some res" by simp
      from step(1) [OF this sb Value(3)] obtain res' where
        "unique_plain src2 cnt len patterns (set_add p m) t1 = Some res'"
        "same_result R res res'" by blast
      moreover from True Value(2)
      have "unique_plain src2 cnt len patterns m t
          = unique_plain src2 cnt len patterns (set_add p m) t1"
        by (subst unique_plain.simps) simp
      ultimately show ?thesis by auto
    qed
  qed
qed

lemma same_result_conv: "same_result R x y \<Longrightarrow> same_result (\<lambda>t s. R s t) y x"
  by (auto elim!: rel_sum.cases)

lemma uniquePatterns_same:
  assumes sb: "same_bytes R src1 src2" and R: "R s t"
  shows "same_outcome R (uniquePatterns src1 s cnt len patterns existing)
     (uniquePatterns src2 t cnt len patterns existing)"
proof (cases existing)
  case None
  have "same_outcome R (unique_plain src1 cnt len patterns [] s)
      (unique_plain src2 cnt len patterns [] t)"
  proof (rule rel_option_both)
    fix a assume "unique_plain src1 cnt len patterns [] s = Some a"
    from unique_plain_same_fwd [OF this sb R]
    show "\<exists>b. unique_plain src2 cnt len patterns [] t = Some b \<and> same_result R a b" .
  next
    fix b assume "unique_plain src2 cnt len patterns [] t = Some b"
    from unique_plain_same_fwd [OF this same_bytes_conv [OF sb], of s] R
    show "unique_plain src1 cnt len patterns [] s \<noteq> None" by auto
  qed
  with None show ?thesis by (simp add: uniquePatterns_def)
next
  case (Some ps)
  have "same_outcome R (unique_excluding src1 cnt len patterns ps [] s)
      (unique_excluding src2 cnt len patterns ps [] t)"
  proof (rule rel_option_both)
    fix a assume "unique_excluding src1 cnt len patterns ps [] s = Some a"
    from unique_excluding_same_fwd [OF this sb R]
    show "\<exists>b. unique_excluding src2 cnt len patterns ps [] t = Some b \<and> same_result R a b" .
  next
    fix b assume "unique_excluding src2 cnt len patterns ps [] t = Some b"
    from unique_excluding_same_fwd [OF this same_bytes_conv [OF sb], of s] R
    show "unique_excluding src1 cnt len patterns ps [] s \<noteq> None" by auto
  qed
  with Some show ?thesis by (simp add: uniquePatterns_def)
qed

lemma same_bytes_wrapping: "same_bytes (\<lambda>s t. t = s mod 256) cyclicSource wrappingSource"
  by (auto simp: same_bytes_def cyclicSource_def wrappingSource_def mod_add_left_eq)

text \<open>
  C9. Every core function is a function of its parameters and of the bytes the source
  yields: called with the same parameters on two sources that yield the same bytes (every
  request answered with the same array), from related states, each of the byte and integer extractors, \<open>integerLessThan\<close>, \<open>integer\<close>,
  \<open>format\<close>, \<open>pattern\<close> and \<open>uniquePatterns\<close> gives the same outcome (the same value, the same
  error, or no return on either side) and leaves the sources in related states. Two calls
  on identically initialised copies of one source are the case of equal states.
\<close>

theorem core_deterministic:
  assumes "same_bytes R src1 src2" "R s t"
  shows "rel_prod (=) R (bytesOf src1 s n) (bytesOf src2 t n)
    \<and> same_result R (uint8 src1 s) (uint8 src2 t)
    \<and> same_result R (uint16 src1 s) (uint16 src2 t)
    \<and> same_result R (uint32 src1 s) (uint32 src2 t)
    \<and> same_result R (uint64 src1 s) (uint64 src2 t)
    \<and> same_result R (integerLessThan src1 s rng) (integerLessThan src2 t rng)
    \<and> same_result R (integer src1 s mn mx) (integer src2 t mn mx)
    \<and> rel_option (rel_prod (=) R) (format src1 s alphabet sz) (format src2 t alphabet sz)
    \<and> same_outcome R (pattern src1 s len patterns) (pattern src2 t len patterns)
    \<and> same_outcome R (uniquePatterns src1 s cnt len patterns existing)
         (uniquePatterns src2 t cnt len patterns existing)"
proof -
  have "rel_prod (=) R (bytesOf src1 s n) (bytesOf src2 t n)"
    by (rule same_bytesD [OF assms, of n]) (simp add: bytesOf_def)
  then show ?thesis
    by (simp add: uint_same [OF assms] integerLessThan_same [OF assms] integer_same [OF assms]
        format_same [OF assms] pattern_same [OF assms] uniquePatterns_same [OF assms])
qed

theorem core_deterministic_witness:
  "same_bytes (\<lambda>s t. t = s mod 256) cyclicSource wrappingSource \<and> (44::nat) = 300 mod 256
   \<and> same_result (\<lambda>s t. t = s mod 256) (uint32 cyclicSource 300) (uint32 wrappingSource 44)
   \<and> same_result (\<lambda>s t. t = s mod 256)
        (integer cyclicSource 300 2 9) (integer wrappingSource 44 2 9)
   \<and> same_outcome (\<lambda>s t. t = s mod 256)
        (pattern cyclicSource 300 8 (Multi [''abc'', ''0123''])) 
        (pattern wrappingSource 44 8 (Multi [''abc'', ''0123'']))
   \<and> same_outcome (\<lambda>s t. t = s mod 256)
        (uniquePatterns cyclicSource 300 3 8 (Multi [''abc'', ''0123'']) (Some [''abcd'', ''efgh'']))
        (uniquePatterns wrappingSource 44 3 8 (Multi [''abc'', ''0123'']) (Some [''abcd'', ''efgh'']))"
proof -
  have r: "(44::nat) = 300 mod 256" by simp
  note t = core_deterministic [OF same_bytes_wrapping r]
  from t [of 0 0 0 0 "[]" 0 8 "Multi [''abc'', ''0123'']" 3 "Some [''abcd'', ''efgh'']"]
    t [of 0 0 2 9 "[]" 0 8 "Multi [''abc'', ''0123'']" 3 "Some [''abcd'', ''efgh'']"]
    same_bytes_wrapping r
  show ?thesis by blast
qed

end
